theory Spec2Isabelle
  imports Complex_Main "HOL-Library.Multiset"
begin

section \<open>Values, integers and the clock\<close>

text \<open>
  The memory adapter of package \<open>gcache\<close> is embedded as pure functions over an explicit
  state. Every function that reads \<open>gtime.TimestampMilli()\<close> takes the clock value
  \<open>now\<close> (milliseconds) as a parameter, read once per operation.

  A Go \<open>interface{}\<close> value is \<open>Nil\<close>, a plain value, or a producer function
  (\<open>gcache.Func\<close>). A producer is represented by what a call of it returns: \<open>Inl err\<close>
  for a non-nil error, \<open>Inr value\<close> otherwise.
\<close>

datatype ('v, 'x) any = Nil | Val 'v | Func "'x + ('v, 'x) any"

text \<open>
  \<open>int64\<close> values are integers; \<open>int64\<close> below is the two's complement wrap-around of
  an arithmetic result, and \<open>go_div\<close> is Go's integer division, which truncates
  towards zero.
\<close>

definition int64 :: "int \<Rightarrow> int" where
  "int64 x = (x + 2 ^ 63) mod 2 ^ 64 - 2 ^ 63"

definition go_div :: "int \<Rightarrow> int \<Rightarrow> int" where
  "go_div a b = sgn a * sgn b * (\<bar>a\<bar> div \<bar>b\<bar>)"

text \<open>\<open>time.Duration\<close> counts nanoseconds; \<open>time.Millisecond\<close> is 1000000 of them.\<close>

definition Millisecond :: int where
  "Millisecond = 1000000"

definition defaultMaxExpire :: int where
  "defaultMaxExpire = 9223372036854"

section \<open>memoryData: the data map\<close>

record ('v, 'x) memoryDataItem =
  item_v :: "('v, 'x) any"
  item_e :: int

type_synonym ('k, 'v, 'x) memoryData = "'k \<rightharpoonup> ('v, 'x) memoryDataItem"

definition newMemoryData :: "('k, 'v, 'x) memoryData" where
  "newMemoryData = Map.empty"

definition IsExpired :: "('v, 'x) memoryDataItem \<Rightarrow> int \<Rightarrow> bool" where
  "IsExpired item now \<longleftrightarrow> item_e item < now"

text \<open>\<open>memoryData.Update\<close> returns the new map, the old value and \<open>exist\<close>.\<close>

definition memoryData_Update ::
  "('k, 'v, 'x) memoryData \<Rightarrow> 'k \<Rightarrow> ('v, 'x) any
    \<Rightarrow> ('k, 'v, 'x) memoryData \<times> ('v, 'x) any \<times> bool" where
  "memoryData_Update d key value =
     (case d key of
        Some item \<Rightarrow> (d(key \<mapsto> \<lparr>item_v = value, item_e = item_e item\<rparr>), item_v item, True)
      | None \<Rightarrow> (d, Nil, False))"

text \<open>\<open>memoryData.UpdateExpire\<close> returns the old remaining duration, or -1.\<close>

definition memoryData_UpdateExpire ::
  "('k, 'v, 'x) memoryData \<Rightarrow> int \<Rightarrow> 'k \<Rightarrow> int \<Rightarrow> ('k, 'v, 'x) memoryData \<times> int" where
  "memoryData_UpdateExpire d now key expireTime =
     (case d key of
        Some item \<Rightarrow> (d(key \<mapsto> \<lparr>item_v = item_v item, item_e = expireTime\<rparr>),
                      int64 (int64 (item_e item - now) * Millisecond))
      | None \<Rightarrow> (d, -1))"

text \<open>
  \<open>memoryData.Remove\<close>: the loop over \<open>keys\<close> with its two accumulators, the removed
  keys and the value of the last removed item.
\<close>

fun Remove_loop ::
  "('k, 'v, 'x) memoryData \<Rightarrow> 'k list \<Rightarrow> 'k list \<Rightarrow> ('v, 'x) any
    \<Rightarrow> ('k, 'v, 'x) memoryData \<times> 'k list \<times> ('v, 'x) any" where
  "Remove_loop d [] removedKeys value = (d, removedKeys, value)"
| "Remove_loop d (key # keys) removedKeys value =
     (case d key of
        Some item \<Rightarrow> Remove_loop (d(key := None)) keys (removedKeys @ [key]) (item_v item)
      | None \<Rightarrow> Remove_loop d keys removedKeys value)"

definition memoryData_Remove ::
  "('k, 'v, 'x) memoryData \<Rightarrow> 'k list
    \<Rightarrow> ('k, 'v, 'x) memoryData \<times> 'k list \<times> ('v, 'x) any" where
  "memoryData_Remove d keys = Remove_loop d keys [] Nil"

text \<open>
  The snapshot views keep the entries with \<open>v.e > nowMilli\<close>. Go iterates a map in no
  fixed order, so \<open>Keys\<close> is a set and \<open>Values\<close> a multiset.
\<close>

definition memoryData_Data ::
  "('k, 'v, 'x) memoryData \<Rightarrow> int \<Rightarrow> ('k \<rightharpoonup> ('v, 'x) any)" where
  "memoryData_Data d nowMilli =
     (\<lambda>k. case d k of
            Some item \<Rightarrow> if item_e item > nowMilli then Some (item_v item) else None
          | None \<Rightarrow> None)"

definition memoryData_Keys :: "('k, 'v, 'x) memoryData \<Rightarrow> int \<Rightarrow> 'k set" where
  "memoryData_Keys d nowMilli = {k \<in> dom d. item_e (the (d k)) > nowMilli}"

definition memoryData_Values ::
  "('k, 'v, 'x) memoryData \<Rightarrow> int \<Rightarrow> ('v, 'x) any multiset" where
  "memoryData_Values d nowMilli =
     image_mset (\<lambda>k. item_v (the (d k)))
       (mset_set {k \<in> dom d. item_e (the (d k)) > nowMilli})"

definition memoryData_Size :: "('k, 'v, 'x) memoryData \<Rightarrow> int \<Rightarrow> nat" where
  "memoryData_Size d nowMilli = card {k \<in> dom d. item_e (the (d k)) > nowMilli}"

definition memoryData_Get ::
  "('k, 'v, 'x) memoryData \<Rightarrow> 'k \<Rightarrow> ('v, 'x) memoryDataItem option" where
  "memoryData_Get d key = d key"

definition memoryData_Set ::
  "('k, 'v, 'x) memoryData \<Rightarrow> 'k \<Rightarrow> ('v, 'x) memoryDataItem \<Rightarrow> ('k, 'v, 'x) memoryData" where
  "memoryData_Set d key value = d(key \<mapsto> value)"

definition memoryData_Delete :: "('k, 'v, 'x) memoryData \<Rightarrow> 'k \<Rightarrow> ('k, 'v, 'x) memoryData" where
  "memoryData_Delete d key = d(key := None)"

text \<open>
  \<open>memoryData.SetWithLock\<close> returns the new map, the returned value, the returned error
  and the number of times the producer was called.
\<close>

definition SetWithLock ::
  "('k, 'v, 'x) memoryData \<Rightarrow> int \<Rightarrow> 'k \<Rightarrow> ('v, 'x) any \<Rightarrow> int
    \<Rightarrow> ('k, 'v, 'x) memoryData \<times> ('v, 'x) any \<times> 'x option \<times> nat" where
  "SetWithLock d now key value expireTimestamp =
     (if (case d key of Some v \<Rightarrow> \<not> IsExpired v now | None \<Rightarrow> False)
      then (d, item_v (the (d key)), None, 0)
      else
        (case value of
           Func f \<Rightarrow>
             (case f of
                Inl err \<Rightarrow> (d, Nil, Some err, 1)
              | Inr value' \<Rightarrow>
                  if value' = Nil then (d, Nil, None, 1)
                  else (d(key \<mapsto> \<lparr>item_v = value', item_e = expireTimestamp\<rparr>),
                        value', None, 1))
         | _ \<Rightarrow> (d(key \<mapsto> \<lparr>item_v = value, item_e = expireTimestamp\<rparr>), value, None, 0)))"

section \<open>memoryLru: the LRU list\<close>

text \<open>
  The manager holds a list of keys, most recently used first, and a hash map from each
  key of the list to its list element. The map is an index of the list: a key is in the
  map exactly when it is in the list, once. The model keeps the list and reads
  membership (\<open>l.data.Get(key) != nil\<close>), the front test (\<open>element.Prev() == nil\<close>) and
  the size (\<open>l.data.Size()\<close>) from it.
\<close>

record 'k memoryLru =
  cap :: int
  lst :: "'k list"

definition newMemoryLru :: "int \<Rightarrow> 'k memoryLru" where
  "newMemoryLru c = \<lparr>cap = c, lst = []\<rparr>"

definition doSaveAndEvict :: "'k memoryLru \<Rightarrow> 'k \<Rightarrow> 'k memoryLru \<times> 'k option" where
  "doSaveAndEvict l key =
     (if key \<in> set (lst l) \<and> hd (lst l) = key then (l, None)
      else
        let l1 = (if key \<in> set (lst l) then l\<lparr>lst := remove1 key (lst l)\<rparr> else l);
            l2 = l1\<lparr>lst := key # lst l1\<rparr>
        in if int (length (lst l2)) \<le> cap l2 then (l2, None)
           else (l2\<lparr>lst := butlast (lst l2)\<rparr>, Some (last (lst l2))))"

fun SaveAndEvict :: "'k memoryLru \<Rightarrow> 'k list \<Rightarrow> 'k memoryLru \<times> 'k list" where
  "SaveAndEvict l [] = (l, [])"
| "SaveAndEvict l (key # keys) =
     (case doSaveAndEvict l key of
        (l', evictedKey) \<Rightarrow>
          (case SaveAndEvict l' keys of
             (l'', evictedKeys) \<Rightarrow>
               (l'', (case evictedKey of None \<Rightarrow> [] | Some k \<Rightarrow> [k]) @ evictedKeys)))"

definition memoryLru_Remove :: "'k memoryLru \<Rightarrow> 'k list \<Rightarrow> 'k memoryLru" where
  "memoryLru_Remove l keys = l\<lparr>lst := fold remove1 keys (lst l)\<rparr>"

definition memoryLru_Clear :: "'k memoryLru \<Rightarrow> 'k memoryLru" where
  "memoryLru_Clear l = l\<lparr>lst := []\<rparr>"

section \<open>AdapterMemory\<close>

text \<open>
  An event is the pair \<open>(k, e)\<close> of \<open>adapterMemoryEvent\<close>. \<open>expireSets\<close> maps a bucket key
  to its set of keys, \<open>expireTimes\<close> a key to its bucket key. \<open>lru\<close> is \<open>None\<close> for the
  nil pointer of a cache without LRU.
\<close>

type_synonym 'k adapterMemoryEvent = "'k \<times> int"

record ('k, 'v, 'x) AdapterMemory =
  data :: "('k, 'v, 'x) memoryData"
  expireTimes :: "'k \<rightharpoonup> int"
  expireSets :: "int \<rightharpoonup> 'k set"
  lru :: "'k memoryLru option"
  eventList :: "'k adapterMemoryEvent list"
  closed :: bool

definition doNewAdapterMemory :: "('k, 'v, 'x) AdapterMemory" where
  "doNewAdapterMemory =
     \<lparr>data = newMemoryData, expireTimes = Map.empty, expireSets = Map.empty,
      lru = None, eventList = [], closed = False\<rparr>"

definition NewAdapterMemory :: "('k, 'v, 'x) AdapterMemory" where
  "NewAdapterMemory = doNewAdapterMemory"

definition NewAdapterMemoryLru :: "int \<Rightarrow> ('k, 'v, 'x) AdapterMemory" where
  "NewAdapterMemoryLru c = doNewAdapterMemory\<lparr>lru := Some (newMemoryLru c)\<rparr>"

definition getInternalExpire :: "int \<Rightarrow> int \<Rightarrow> int" where
  "getInternalExpire now duration =
     (if duration = 0 then defaultMaxExpire
      else int64 (now + go_div duration 1000000))"

text \<open>
  \<open>makeExpireKey\<close> is \<open>int64(math.Ceil(float64(expire/1000)+1) * 1000)\<close>. The division
  is the integer one; the real numbers stand for \<open>float64\<close>, which is exact on the
  integers below \<open>2 ^ 53\<close> that millisecond timestamps give.
\<close>

definition makeExpireKey :: "int \<Rightarrow> int" where
  "makeExpireKey expire =
     \<lfloor>real_of_int \<lceil>real_of_int (go_div expire 1000) + 1\<rceil> * 1000\<rfloor>"

definition doRemove ::
  "('k, 'v, 'x) AdapterMemory \<Rightarrow> int \<Rightarrow> 'k list
    \<Rightarrow> ('k, 'v, 'x) AdapterMemory \<times> ('v, 'x) any option" where
  "doRemove c now keys =
     (case memoryData_Remove (data c) keys of
        (d', removedKeys, value) \<Rightarrow>
          (c\<lparr>data := d',
             eventList := eventList c @ map (\<lambda>key. (key, int64 (now - 1000))) removedKeys\<rparr>,
           Some value))"

definition handleLruKey ::
  "('k, 'v, 'x) AdapterMemory \<Rightarrow> int \<Rightarrow> 'k list \<Rightarrow> ('k, 'v, 'x) AdapterMemory" where
  "handleLruKey c now keys =
     (case lru c of
        None \<Rightarrow> c
      | Some l \<Rightarrow>
          (case SaveAndEvict l keys of
             (l', evictedKeys) \<Rightarrow>
               if length evictedKeys > 0
               then fst (doRemove (c\<lparr>lru := Some l'\<rparr>) now evictedKeys)
               else c\<lparr>lru := Some l'\<rparr>))"

text \<open>
  \<open>Set\<close>: the deferred \<open>handleLruKey\<close> runs last. The returned error is always nil and
  is left out.
\<close>

definition Set ::
  "('k, 'v, 'x) AdapterMemory \<Rightarrow> int \<Rightarrow> 'k \<Rightarrow> ('v, 'x) any \<Rightarrow> int
    \<Rightarrow> ('k, 'v, 'x) AdapterMemory" where
  "Set c now key value duration =
     (let expireTime = getInternalExpire now duration;
          c1 = c\<lparr>data := memoryData_Set (data c) key \<lparr>item_v = value, item_e = expireTime\<rparr>\<rparr>;
          c2 = c1\<lparr>eventList := eventList c1 @ [(key, expireTime)]\<rparr>
      in handleLruKey c2 now [key])"

text \<open>
  \<open>Get\<close> returns a \<open>*gvar.Var\<close>: \<open>None\<close> is the nil pointer, \<open>Some x\<close> the box
  \<open>gvar.New(x)\<close>, whose content \<open>x\<close> may itself be \<open>Nil\<close>.
\<close>

definition Get ::
  "('k, 'v, 'x) AdapterMemory \<Rightarrow> int \<Rightarrow> 'k
    \<Rightarrow> ('k, 'v, 'x) AdapterMemory \<times> ('v, 'x) any option" where
  "Get c now key =
     (case memoryData_Get (data c) key of
        Some item \<Rightarrow>
          if \<not> IsExpired item now then (handleLruKey c now [key], Some (item_v item))
          else (c, None)
      | None \<Rightarrow> (c, None))"

definition Contains ::
  "('k, 'v, 'x) AdapterMemory \<Rightarrow> int \<Rightarrow> 'k \<Rightarrow> ('k, 'v, 'x) AdapterMemory \<times> bool" where
  "Contains c now key = (case Get c now key of (c', v) \<Rightarrow> (c', v \<noteq> None))"

definition GetExpire ::
  "('k, 'v, 'x) AdapterMemory \<Rightarrow> int \<Rightarrow> 'k \<Rightarrow> ('k, 'v, 'x) AdapterMemory \<times> int" where
  "GetExpire c now key =
     (case memoryData_Get (data c) key of
        Some item \<Rightarrow>
          (handleLruKey c now [key], int64 (int64 (item_e item - now) * Millisecond))
      | None \<Rightarrow> (c, -1))"

definition Update ::
  "('k, 'v, 'x) AdapterMemory \<Rightarrow> int \<Rightarrow> 'k \<Rightarrow> ('v, 'x) any
    \<Rightarrow> ('k, 'v, 'x) AdapterMemory \<times> ('v, 'x) any option \<times> bool" where
  "Update c now key value =
     (case memoryData_Update (data c) key value of
        (d', v, exist) \<Rightarrow>
          ((if exist then handleLruKey (c\<lparr>data := d'\<rparr>) now [key] else c\<lparr>data := d'\<rparr>),
           Some v, exist))"

definition Size :: "('k, 'v, 'x) AdapterMemory \<Rightarrow> int \<Rightarrow> nat" where
  "Size c now = memoryData_Size (data c) now"

definition Data :: "('k, 'v, 'x) AdapterMemory \<Rightarrow> int \<Rightarrow> ('k \<rightharpoonup> ('v, 'x) any)" where
  "Data c now = memoryData_Data (data c) now"

definition Keys :: "('k, 'v, 'x) AdapterMemory \<Rightarrow> int \<Rightarrow> 'k set" where
  "Keys c now = memoryData_Keys (data c) now"

definition Values :: "('k, 'v, 'x) AdapterMemory \<Rightarrow> int \<Rightarrow> ('v, 'x) any multiset" where
  "Values c now = memoryData_Values (data c) now"

definition Close :: "('k, 'v, 'x) AdapterMemory \<Rightarrow> ('k, 'v, 'x) AdapterMemory" where
  "Close c = c\<lparr>closed := True\<rparr>"

text \<open>
  \<open>doSetWithLockCheck\<close> returns the state, the box \<open>gvar.New(v)\<close> and the error.
\<close>

definition doSetWithLockCheck ::
  "('k, 'v, 'x) AdapterMemory \<Rightarrow> int \<Rightarrow> 'k \<Rightarrow> ('v, 'x) any \<Rightarrow> int
    \<Rightarrow> ('k, 'v, 'x) AdapterMemory \<times> ('v, 'x) any option \<times> 'x option" where
  "doSetWithLockCheck c now key value duration =
     (let expireTimestamp = getInternalExpire now duration
      in case SetWithLock (data c) now key value expireTimestamp of
           (d', v, err, calls) \<Rightarrow>
             (c\<lparr>data := d', eventList := eventList c @ [(key, expireTimestamp)]\<rparr>,
              Some v, err))"

definition SetIfNotExist ::
  "('k, 'v, 'x) AdapterMemory \<Rightarrow> int \<Rightarrow> 'k \<Rightarrow> ('v, 'x) any \<Rightarrow> int
    \<Rightarrow> ('k, 'v, 'x) AdapterMemory \<times> bool \<times> 'x option" where
  "SetIfNotExist c now key value duration =
     (case Contains c now key of
        (c1, isContained) \<Rightarrow>
          if \<not> isContained then
            (case doSetWithLockCheck c1 now key value duration of
               (c2, v, err) \<Rightarrow>
                 if err \<noteq> None then (handleLruKey c2 now [key], False, err)
                 else (handleLruKey c2 now [key], True, None))
          else (handleLruKey c1 now [key], False, None))"

section \<open>The sweeper\<close>

text \<open>
  One pass of the drain loop of \<open>syncEventAndClearExpired\<close>, for the event popped from
  the front of \<open>eventList\<close>. \<open>expireTimes.Get\<close> reads 0 for a key that is not in the
  map; \<open>expireSets.GetOrNew\<close> creates an empty set for a bucket that is not there.
\<close>

definition expireTimes_Get :: "('k \<rightharpoonup> int) \<Rightarrow> 'k \<Rightarrow> int" where
  "expireTimes_Get m key = (case m key of Some value \<Rightarrow> value | None \<Rightarrow> 0)"

definition GetOrNew :: "(int \<rightharpoonup> 'k set) \<Rightarrow> int \<Rightarrow> (int \<rightharpoonup> 'k set) \<times> 'k set" where
  "GetOrNew m key = (case m key of Some es \<Rightarrow> (m, es) | None \<Rightarrow> (m(key \<mapsto> {}), {}))"

definition expireSets_Add :: "(int \<rightharpoonup> 'k set) \<Rightarrow> int \<Rightarrow> 'k \<Rightarrow> (int \<rightharpoonup> 'k set)" where
  "expireSets_Add m key k = (case GetOrNew m key of (m', es) \<Rightarrow> m'(key \<mapsto> insert k es))"

definition expireSets_Remove :: "(int \<rightharpoonup> 'k set) \<Rightarrow> int \<Rightarrow> 'k \<Rightarrow> (int \<rightharpoonup> 'k set)" where
  "expireSets_Remove m key k = (case GetOrNew m key of (m', es) \<Rightarrow> m'(key \<mapsto> es - {k}))"

definition syncEvent ::
  "('k, 'v, 'x) AdapterMemory \<Rightarrow> 'k adapterMemoryEvent \<Rightarrow> ('k, 'v, 'x) AdapterMemory" where
  "syncEvent c event =
     (let oldExpireTime = expireTimes_Get (expireTimes c) (fst event);
          newExpireTime = makeExpireKey (snd event)
      in if newExpireTime \<noteq> oldExpireTime then
           let s1 = expireSets_Add (expireSets c) newExpireTime (fst event);
               s2 = (if oldExpireTime \<noteq> 0 then expireSets_Remove s1 oldExpireTime (fst event)
                     else s1)
           in c\<lparr>expireSets := s2, expireTimes := (expireTimes c)(fst event \<mapsto> newExpireTime)\<rparr>
         else c)"

text \<open>The drain loop pops events until the list is empty.\<close>

function drainEvents :: "('k, 'v, 'x) AdapterMemory \<Rightarrow> ('k, 'v, 'x) AdapterMemory" where
  "drainEvents c =
     (case eventList c of
        [] \<Rightarrow> c
      | event # rest \<Rightarrow> drainEvents (syncEvent (c\<lparr>eventList := rest\<rparr>) event))"
  by pat_completeness auto
termination
  by (relation "measure (\<lambda>c. length (eventList c))")
     (auto simp: syncEvent_def Let_def)

declare drainEvents.simps [simp del]

text \<open>
  The sweep phase: for \<open>i = 1..5\<close> the bucket \<open>currentEk - i*1000\<close>, when it exists, has
  each of its keys deleted from the data map, from \<open>expireTimes\<close> and from the LRU list,
  and is then deleted itself.
\<close>

definition deleteExpiredKeys ::
  "('k, 'v, 'x) AdapterMemory \<Rightarrow> 'k set \<Rightarrow> ('k, 'v, 'x) AdapterMemory" where
  "deleteExpiredKeys c keys =
     c\<lparr>data := (\<lambda>k. if k \<in> keys then None else data c k),
       expireTimes := (\<lambda>k. if k \<in> keys then None else expireTimes c k),
       lru := map_option (\<lambda>l. l\<lparr>lst := filter (\<lambda>k. k \<notin> keys) (lst l)\<rparr>) (lru c)\<rparr>"

definition clearExpired ::
  "('k, 'v, 'x) AdapterMemory \<Rightarrow> int \<Rightarrow> int \<Rightarrow> ('k, 'v, 'x) AdapterMemory" where
  "clearExpired c currentEk i =
     (let expireTime = currentEk - i * 1000
      in case expireSets c expireTime of
           Some expireSet \<Rightarrow>
             (deleteExpiredKeys c expireSet)
               \<lparr>expireSets := (expireSets c)(expireTime := None)\<rparr>
         | None \<Rightarrow> c)"

text \<open>
  \<open>syncEventAndClearExpired\<close> returns the state and whether it called \<open>gtimer.Exit()\<close>.
\<close>

definition syncEventAndClearExpired ::
  "('k, 'v, 'x) AdapterMemory \<Rightarrow> int \<Rightarrow> ('k, 'v, 'x) AdapterMemory \<times> bool" where
  "syncEventAndClearExpired c now =
     (if closed c then (c, True)
      else
        let c1 = drainEvents c;
            currentEk = makeExpireKey now
        in (foldl (\<lambda>c' i. clearExpired c' currentEk i) c1 [1, 2, 3, 4, 5], False))"

section \<open>Predicates of the specification\<close>

text \<open>A key is live in the data map when it is present and not expired.\<close>

definition live :: "('k, 'v, 'x) memoryData \<Rightarrow> 'k \<Rightarrow> int \<Rightarrow> bool" where
  "live d key now = (case d key of Some item \<Rightarrow> \<not> IsExpired item now | None \<Rightarrow> False)"

text \<open>
  The LRU list tracks a key when the cache has no LRU list, or the key is in the list
  and the list is within its capacity. A cache built by the write operations is in this
  state for each key of its data map.
\<close>

definition lru_tracks :: "('k, 'v, 'x) AdapterMemory \<Rightarrow> 'k \<Rightarrow> bool" where
  "lru_tracks c key =
     (case lru c of
        None \<Rightarrow> True
      | Some l \<Rightarrow> key \<in> set (lst l) \<and> int (length (lst l)) \<le> cap l)"

text \<open>
  The LRU list of a cache is well formed when its capacity is positive and no key is in
  it twice; a cache without LRU list is well formed. A key is at the front when the cache
  has no LRU list or the key is the first one of the list.
\<close>

definition lru_wf :: "('k, 'v, 'x) AdapterMemory \<Rightarrow> bool" where
  "lru_wf c = (case lru c of None \<Rightarrow> True | Some l \<Rightarrow> 0 < cap l \<and> distinct (lst l))"

definition at_front :: "('k, 'v, 'x) AdapterMemory \<Rightarrow> 'k \<Rightarrow> bool" where
  "at_front c key =
     (case lru c of
        None \<Rightarrow> True
      | Some l \<Rightarrow> (case lst l of [] \<Rightarrow> False | k # _ \<Rightarrow> k = key))"

text \<open>
  The LRU list covers the data map when it is well formed, within its capacity, and
  holds every key of the data map. The caches that are reachable here are those built
  from a new cache, without LRU list or with one of positive capacity, by the operations
  embedded above.
\<close>

definition lru_covers :: "('k, 'v, 'x) AdapterMemory \<Rightarrow> bool" where
  "lru_covers c =
     (case lru c of
        None \<Rightarrow> True
      | Some l \<Rightarrow> 0 < cap l \<and> distinct (lst l) \<and> int (length (lst l)) \<le> cap l
                  \<and> dom (data c) \<subseteq> set (lst l))"

inductive reachable :: "('k, 'v, 'x) AdapterMemory \<Rightarrow> bool" where
  new: "reachable NewAdapterMemory"
| new_lru: "0 < C \<Longrightarrow> reachable (NewAdapterMemoryLru C)"
| set: "reachable c \<Longrightarrow> reachable (Set c now key value duration)"
| set_if_not_exist: "reachable c \<Longrightarrow> reachable (fst (SetIfNotExist c now key value duration))"
| get: "reachable c \<Longrightarrow> reachable (fst (Get c now key))"
| contains: "reachable c \<Longrightarrow> reachable (fst (Contains c now key))"
| get_expire: "reachable c \<Longrightarrow> reachable (fst (GetExpire c now key))"
| update: "reachable c \<Longrightarrow> reachable (fst (Update c now key value))"
| close: "reachable c \<Longrightarrow> reachable (Close c)"
| sweep: "reachable c \<Longrightarrow> reachable (fst (syncEventAndClearExpired c now))"

text \<open>
  The invariants of the two expiry indexes: a key of \<open>expireTimes\<close> is in the bucket it
  maps to; a key of a bucket maps to that bucket in \<open>expireTimes\<close>; a key is in at most
  one bucket. \<open>no_zero_bucket\<close>: no key maps to the bucket key 0, the value that
  \<open>expireTimes.Get\<close> returns for a key that is absent. \<open>bucket_keys\<close> reads a bucket
  that may be absent.
\<close>

definition index_inv :: "('k, 'v, 'x) AdapterMemory \<Rightarrow> bool" where
  "index_inv c \<longleftrightarrow>
     (\<forall>k b. expireTimes c k = Some b \<longrightarrow> (\<exists>s. expireSets c b = Some s \<and> k \<in> s))
     \<and> (\<forall>b s k. expireSets c b = Some s \<and> k \<in> s \<longrightarrow> expireTimes c k = Some b)
     \<and> (\<forall>b b' s s' k. expireSets c b = Some s \<and> k \<in> s
            \<and> expireSets c b' = Some s' \<and> k \<in> s' \<longrightarrow> b = b')"

definition no_zero_bucket :: "('k, 'v, 'x) AdapterMemory \<Rightarrow> bool" where
  "no_zero_bucket c \<longleftrightarrow> (\<forall>k. expireTimes c k \<noteq> Some 0)"

definition bucket_keys :: "(int \<rightharpoonup> 'k set) \<Rightarrow> int \<Rightarrow> 'k set" where
  "bucket_keys m b = (case m b of Some s \<Rightarrow> s | None \<Rightarrow> {})"

text \<open>
  A run of \<open>Set\<close> operations, each with its clock value, key, value and duration; the
  key of an operation and the event it pushes.
\<close>

fun SetAll ::
  "('k, 'v, 'x) AdapterMemory \<Rightarrow> (int \<times> 'k \<times> ('v, 'x) any \<times> int) list
    \<Rightarrow> ('k, 'v, 'x) AdapterMemory" where
  "SetAll c [] = c"
| "SetAll c ((now, key, value, duration) # ops) = SetAll (Set c now key value duration) ops"

definition op_key :: "int \<times> 'k \<times> ('v, 'x) any \<times> int \<Rightarrow> 'k" where
  "op_key op = fst (snd op)"

definition op_event :: "int \<times> 'k \<times> ('v, 'x) any \<times> int \<Rightarrow> 'k adapterMemoryEvent" where
  "op_event op =
     (case op of (now, key, value, duration) \<Rightarrow> (key, getInternalExpire now duration))"

section \<open>Example caches\<close>

definition fresh :: "(string, nat, string) AdapterMemory" where
  "fresh = NewAdapterMemory"

definition fresh_lru :: "(string, nat, string) AdapterMemory" where
  "fresh_lru = NewAdapterMemoryLru 2"

definition three_sets :: "(int \<times> string \<times> (nat, string) any \<times> int) list" where
  "three_sets = [(1000, ''a'', Val 1, 0), (1001, ''b'', Val 2, 0), (1002, ''c'', Val 3, 0)]"

definition moved_through_zero :: "(string, nat, string) AdapterMemory" where
  "moved_through_zero = fresh\<lparr>eventList := [(''k'', 5000), (''k'', - 1500), (''k'', 7000)]\<rparr>"

definition moved_once :: "(string, nat, string) AdapterMemory" where
  "moved_once = fresh\<lparr>eventList := [(''k'', 5000), (''k'', 7000)]\<rparr>"

definition example_data :: "(string, nat, string) memoryData" where
  "example_data = Map.empty(''k'' \<mapsto> \<lparr>item_v = Val 3, item_e = 2000\<rparr>)"

definition example_cache :: "(string, nat, string) AdapterMemory" where
  "example_cache = Set NewAdapterMemory 1000 ''k'' (Val 7) 500000000"

section \<open>The expiry bucket key\<close>

lemma makeExpireKey_int: "makeExpireKey expire = (go_div expire 1000 + 1) * 1000"
proof -
  have "real_of_int \<lceil>real_of_int (go_div expire 1000) + 1\<rceil> * 1000
        = real_of_int ((go_div expire 1000 + 1) * 1000)"
    by simp
  then show ?thesis
    unfolding makeExpireKey_def by (simp only: floor_of_int)
qed

lemma go_div_1000_mult: "go_div (1000 * q) 1000 = q"
proof -
  have "\<bar>1000 * q\<bar> div 1000 = \<bar>q\<bar>" by (simp add: abs_mult)
  moreover have "sgn (1000 * q) = sgn q" by (simp add: sgn_mult)
  ultimately show ?thesis by (simp add: go_div_def sgn_mult_abs)
qed

lemma go_div_nonneg: "0 \<le> a \<Longrightarrow> go_div a 1000 = a div 1000"
  by (cases "a = 0") (simp_all add: go_div_def)

lemma makeExpireKey_boundary: "expire mod 1000 = 0 \<Longrightarrow> makeExpireKey expire = expire + 1000"
proof -
  assume "expire mod 1000 = 0"
  then obtain q where "expire = 1000 * q" by auto
  then show ?thesis by (simp add: makeExpireKey_int go_div_1000_mult)
qed

lemma makeExpireKey_nonneg:
  "0 \<le> expire \<Longrightarrow> expire < makeExpireKey expire \<and> makeExpireKey expire \<le> expire + 1000"
  by (simp add: makeExpireKey_int go_div_nonneg) presburger

text \<open>
  C4, as stated: the bucket key is \<open>\<lceil>expiryMs / 1000 + 1\<rceil> * 1000\<close> with exact division.
  It fails at \<open>expiryMs = 1500\<close>: the code divides as integers before it converts, and
  gives 2000 where the formula gives 3000.
\<close>

theorem makeExpireKey_exact_division_counterexample:
  "makeExpireKey 1500 = 2000 \<and> \<lceil>real_of_int 1500 / 1000 + 1\<rceil> * 1000 = (3000 :: int)
   \<and> makeExpireKey 1500 \<noteq> \<lceil>real_of_int 1500 / 1000 + 1\<rceil> * 1000"
  by (simp add: makeExpireKey_int go_div_def)

text \<open>
  C4, amended: for every expiry timestamp the bucket key is \<open>(expiryMs / 1000 + 1) * 1000\<close>
  with the division truncating as Go's integer division does; on a second boundary this
  is the value of the exact formula, one bucket later than the boundary; and a
  non-negative timestamp lies strictly below its bucket key, at most 1000 below it.
\<close>

theorem makeExpireKey_truncating:
  "makeExpireKey expiryMs = (go_div expiryMs 1000 + 1) * 1000
   \<and> (expiryMs mod 1000 = 0 \<longrightarrow>
        makeExpireKey expiryMs = \<lceil>real_of_int expiryMs / 1000 + 1\<rceil> * 1000
        \<and> makeExpireKey expiryMs = expiryMs + 1000)
   \<and> (0 \<le> expiryMs \<longrightarrow>
        expiryMs < makeExpireKey expiryMs \<and> makeExpireKey expiryMs \<le> expiryMs + 1000)"
proof (intro conjI impI)
  show "makeExpireKey expiryMs = (go_div expiryMs 1000 + 1) * 1000"
    by (rule makeExpireKey_int)
next
  assume b: "expiryMs mod 1000 = 0"
  then obtain q where q: "expiryMs = 1000 * q" by auto
  have "\<lceil>real_of_int expiryMs / 1000 + 1\<rceil> = q + 1"
    unfolding q by simp
  then show "makeExpireKey expiryMs = \<lceil>real_of_int expiryMs / 1000 + 1\<rceil> * 1000"
    using makeExpireKey_boundary [OF b] q by simp
  show "makeExpireKey expiryMs = expiryMs + 1000"
    by (rule makeExpireKey_boundary [OF b])
next
  assume "0 \<le> expiryMs"
  then show "expiryMs < makeExpireKey expiryMs" "makeExpireKey expiryMs \<le> expiryMs + 1000"
    using makeExpireKey_nonneg by blast+
qed

theorem makeExpireKey_truncating_witness:
  "(2000 :: int) mod 1000 = 0 \<and> (0 :: int) \<le> 2000 \<and> makeExpireKey 2000 = 3000
   \<and> makeExpireKey 2000 = \<lceil>real_of_int 2000 / 1000 + 1\<rceil> * 1000
   \<and> 2000 < makeExpireKey 2000"
  using makeExpireKey_truncating [of 2000] by simp

section \<open>The data map\<close>

lemma live_keys_drop:
  "d k = Some item \<Longrightarrow> \<not> item_e item > now \<Longrightarrow>
   {k' \<in> dom (d(k := None)). item_e (the ((d(k := None)) k')) > now}
   = {k' \<in> dom d. item_e (the (d k')) > now}"
  by auto

lemma memoryData_Size_drop:
  assumes "d k = Some item" and "\<not> item_e item > now"
  shows "memoryData_Size (d(k := None)) now = memoryData_Size d now"
  unfolding memoryData_Size_def live_keys_drop [of d k item now, OF assms] ..

lemma memoryData_Values_drop:
  assumes "d k = Some item" and "\<not> item_e item > now"
  shows "memoryData_Values (d(k := None)) now = memoryData_Values d now"
proof -
  let ?A = "{k' \<in> dom d. item_e (the (d k')) > now}"
  have ne: "k' \<noteq> k" if "k' \<in> ?A" for k'
    using that assms by auto
  have "image_mset (\<lambda>k'. item_v (the ((d(k := None)) k'))) (mset_set ?A)
        = image_mset (\<lambda>k'. item_v (the (d k'))) (mset_set ?A)"
  proof (cases "finite ?A")
    case True
    show ?thesis
    proof (rule image_mset_cong)
      fix k' assume "k' \<in># mset_set ?A"
      then have "k' \<in> ?A" using True by simp
      then show "item_v (the ((d(k := None)) k')) = item_v (the (d k'))"
        using ne by simp
    qed
  next
    case False
    then show ?thesis by simp
  qed
  then show ?thesis
    unfolding memoryData_Values_def live_keys_drop [of d k item now, OF assms] .
qed

text \<open>
  C5: \<open>SetWithLock\<close> returns the stored value of a key that is present and not expired
  and does not call the producer; otherwise it calls the producer, and whenever the
  producer was called, an error it returned is the returned error with the data map
  unchanged, and a nil value it returned stores nothing and returns nil.
\<close>

theorem SetWithLock_contract:
  "(d k = Some item \<and> \<not> IsExpired item now \<longrightarrow>
      SetWithLock d now k value ts = (d, item_v item, None, 0))
   \<and> (\<not> live d k now \<longrightarrow>
        SetWithLock d now k (Func (Inl err)) ts = (d, Nil, Some err, 1)
        \<and> SetWithLock d now k (Func (Inr Nil)) ts = (d, Nil, None, 1))
   \<and> (\<forall>f d' r er calls.
        SetWithLock d now k (Func f) ts = (d', r, er, calls) \<and> 0 < calls \<longrightarrow>
          (\<forall>e. f = Inl e \<longrightarrow> er = Some e \<and> d' = d)
          \<and> (f = Inr Nil \<longrightarrow> r = Nil \<and> er = None \<and> d' = d))"
  by (auto simp: SetWithLock_def live_def split: option.splits sum.splits if_splits)

theorem SetWithLock_contract_witness:
  "example_data ''k'' = Some \<lparr>item_v = Val 3, item_e = 2000\<rparr>
   \<and> \<not> IsExpired \<lparr>item_v = Val 3, item_e = 2000\<rparr> 1000
   \<and> SetWithLock example_data 1000 ''k'' (Func (Inl ''boom'')) 5000
       = (example_data, Val 3, None, 0)
   \<and> \<not> live example_data ''k'' 3000
   \<and> SetWithLock example_data 3000 ''k'' (Func (Inl ''boom'')) 5000
       = (example_data, Nil, Some ''boom'', 1)
   \<and> SetWithLock example_data 3000 ''k'' (Func (Inr Nil)) 5000
       = (example_data, Nil, None, 1)"
  using
    SetWithLock_contract [of example_data "''k''" "\<lparr>item_v = Val 3, item_e = 2000\<rparr>" 1000
      "Func (Inl ''boom'')" 5000 "''boom''"]
    SetWithLock_contract [of example_data "''k''" "\<lparr>item_v = Val 3, item_e = 2000\<rparr>" 3000
      "Func (Inl ''boom'')" 5000 "''boom''"]
  by (simp add: example_data_def IsExpired_def live_def)

section \<open>The LRU list under reads and updates\<close>

lemma doSaveAndEvict_tracked:
  assumes "key \<in> set (lst l)" and "int (length (lst l)) \<le> cap l"
  shows "doSaveAndEvict l key = (l\<lparr>lst := key # remove1 key (lst l)\<rparr>, None)"
proof (cases "hd (lst l) = key")
  case True
  with assms(1) have "lst l = key # remove1 key (lst l)"
    by (cases "lst l") auto
  then have "l\<lparr>lst := key # remove1 key (lst l)\<rparr> = l" by simp
  with True assms(1) show ?thesis by (simp add: doSaveAndEvict_def)
next
  case False
  have "length (remove1 key (lst l)) = length (lst l) - 1"
    using assms(1) by (simp add: length_remove1)
  moreover have "length (lst l) > 0" using assms(1) by (cases "lst l") auto
  ultimately have "int (Suc (length (remove1 key (lst l)))) \<le> cap l"
    using assms(2) by simp
  with False assms(1) show ?thesis by (simp add: doSaveAndEvict_def Let_def)
qed

lemma handleLruKey_no_lru: "lru c = None \<Longrightarrow> handleLruKey c now keys = c"
  by (simp add: handleLruKey_def)

lemma handleLruKey_tracked:
  assumes "lru c = Some l" and "key \<in> set (lst l)" and "int (length (lst l)) \<le> cap l"
  shows "handleLruKey c now [key] = c\<lparr>lru := Some (l\<lparr>lst := key # remove1 key (lst l)\<rparr>)\<rparr>"
  using assms by (simp add: handleLruKey_def doSaveAndEvict_tracked)

lemma handleLruKey_tracks_data:
  "lru_tracks c key \<Longrightarrow> data (handleLruKey c now [key]) = data c"
  by (cases "lru c") (auto simp: lru_tracks_def handleLruKey_no_lru handleLruKey_tracked)

lemma GetExpire_value:
  "snd (GetExpire c now key) =
     (case data c key of
        Some item \<Rightarrow> int64 (int64 (item_e item - now) * Millisecond)
      | None \<Rightarrow> -1)"
  by (simp add: GetExpire_def memoryData_Get_def split: option.splits)

lemma example_cache_data:
  "data example_cache ''k'' = Some \<lparr>item_v = Val 7, item_e = 1500\<rparr>"
  by (simp add: example_cache_def Set_def NewAdapterMemory_def doNewAdapterMemory_def
      handleLruKey_def memoryData_Set_def getInternalExpire_def go_div_def int64_def Let_def)

lemma example_cache_lru: "lru example_cache = None"
  by (simp add: example_cache_def Set_def NewAdapterMemory_def doNewAdapterMemory_def
      handleLruKey_def Let_def)

lemma example_cache_other: "data example_cache ''j'' = None"
  by (simp add: example_cache_def Set_def NewAdapterMemory_def doNewAdapterMemory_def
      handleLruKey_def memoryData_Set_def newMemoryData_def Let_def)

text \<open>
  C9: for a key present in the data map and tracked by the LRU list, \<open>Update\<close> returns
  the old value with \<open>exist = true\<close>, stores the new value under the old expiry
  timestamp, leaves the entry of every other key as it was, and \<open>GetExpire\<close> of the key
  read at any one clock value is the same before and after; for a key that is absent,
  \<open>Update\<close> changes nothing and returns \<open>exist = false\<close>.
\<close>

theorem Update_replaces_value_only:
  "(data c k = Some item \<and> lru_tracks c k \<longrightarrow>
      (case Update c now k newValue of
         (c', oldValue, exist) \<Rightarrow>
           oldValue = Some (item_v item) \<and> exist
           \<and> data c' k = Some \<lparr>item_v = newValue, item_e = item_e item\<rparr>
           \<and> (\<forall>k'. k' \<noteq> k \<longrightarrow> data c' k' = data c k')
           \<and> snd (GetExpire c' now' k) = snd (GetExpire c now' k)))
   \<and> (data c k = None \<longrightarrow> Update c now k newValue = (c, Some Nil, False))"
proof (intro conjI impI)
  assume a: "data c k = Some item \<and> lru_tracks c k"
  let ?d = "(data c)(k \<mapsto> \<lparr>item_v = newValue, item_e = item_e item\<rparr>)"
  have t: "lru_tracks (c\<lparr>data := ?d\<rparr>) k"
    using a by (simp add: lru_tracks_def)
  have u: "Update c now k newValue
           = (handleLruKey (c\<lparr>data := ?d\<rparr>) now [k], Some (item_v item), True)"
    using a by (simp add: Update_def memoryData_Update_def)
  have d: "data (handleLruKey (c\<lparr>data := ?d\<rparr>) now [k]) = ?d"
    using handleLruKey_tracks_data [OF t] by simp
  show "case Update c now k newValue of
         (c', oldValue, exist) \<Rightarrow>
           oldValue = Some (item_v item) \<and> exist
           \<and> data c' k = Some \<lparr>item_v = newValue, item_e = item_e item\<rparr>
           \<and> (\<forall>k'. k' \<noteq> k \<longrightarrow> data c' k' = data c k')
           \<and> snd (GetExpire c' now' k) = snd (GetExpire c now' k)"
    using a by (simp add: u d GetExpire_value)
next
  assume "data c k = None"
  then show "Update c now k newValue = (c, Some Nil, False)"
    by (simp add: Update_def memoryData_Update_def)
qed

theorem Update_replaces_value_only_witness:
  "data example_cache ''k'' = Some \<lparr>item_v = Val 7, item_e = 1500\<rparr>
   \<and> lru_tracks example_cache ''k''
   \<and> (case Update example_cache 1200 ''k'' (Val 8) of
         (c', oldValue, exist) \<Rightarrow>
           oldValue = Some (Val 7) \<and> exist
           \<and> data c' ''k'' = Some \<lparr>item_v = Val 8, item_e = 1500\<rparr>
           \<and> snd (GetExpire c' 1300 ''k'') = snd (GetExpire example_cache 1300 ''k''))
   \<and> data example_cache ''j'' = None
   \<and> Update example_cache 1200 ''j'' (Val 8) = (example_cache, Some Nil, False)"
proof -
  have t: "lru_tracks example_cache ''k''"
    by (simp add: lru_tracks_def example_cache_lru)
  from Update_replaces_value_only
         [where c = example_cache and k = "''k''" and now = 1200 and newValue = "Val 8"
            and item = "\<lparr>item_v = Val 7, item_e = 1500\<rparr>" and now' = 1300]
       Update_replaces_value_only
         [where c = example_cache and k = "''j''" and now = 1200 and newValue = "Val 8"
            and item = "\<lparr>item_v = Val 7, item_e = 1500\<rparr>" and now' = 1300]
       example_cache_data example_cache_other t
  show ?thesis by (auto split: prod.splits)
qed

section \<open>The instant of expiry\<close>

text \<open>
  C10: when the expiry timestamp of an entry equals the clock value, \<open>Get\<close> returns the
  stored value and \<open>Contains\<close> is true, while \<open>Keys\<close> omits the key, \<open>Data\<close> has no
  entry for it, and \<open>Size\<close> and \<open>Values\<close> are what they are without the entry.
\<close>

theorem boundary_instant_views_disagree:
  assumes "data c k = Some item" and "item_e item = now"
  shows "snd (Get c now k) = Some (item_v item)
         \<and> snd (Contains c now k)
         \<and> k \<notin> Keys c now
         \<and> Data c now k = None
         \<and> Size c now = Size (c\<lparr>data := (data c)(k := None)\<rparr>) now
         \<and> Values c now = Values (c\<lparr>data := (data c)(k := None)\<rparr>) now"
proof -
  have n: "\<not> item_e item > now" using assms by simp
  have g: "snd (Get c now k) = Some (item_v item)"
    using assms by (simp add: Get_def memoryData_Get_def IsExpired_def)
  have c: "snd (Contains c now k)"
    using g by (cases "Get c now k") (simp add: Contains_def)
  have k: "k \<notin> Keys c now"
    using assms by (simp add: Keys_def memoryData_Keys_def)
  have d: "Data c now k = None"
    using assms by (simp add: Data_def memoryData_Data_def)
  have s: "Size c now = Size (c\<lparr>data := (data c)(k := None)\<rparr>) now"
    by (simp add: Size_def memoryData_Size_drop [of "data c" k item now, OF assms(1) n])
  have v: "Values c now = Values (c\<lparr>data := (data c)(k := None)\<rparr>) now"
    by (simp add: Values_def memoryData_Values_drop [of "data c" k item now, OF assms(1) n])
  from g c k d s v show ?thesis by blast
qed

theorem boundary_instant_views_disagree_witness:
  "data example_cache ''k'' = Some \<lparr>item_v = Val 7, item_e = 1500\<rparr>
   \<and> item_e \<lparr>item_v = Val 7 :: (nat, string) any, item_e = 1500\<rparr> = 1500
   \<and> snd (Get example_cache 1500 ''k'') = Some (Val 7)
   \<and> snd (Contains example_cache 1500 ''k'')
   \<and> ''k'' \<notin> Keys example_cache 1500
   \<and> Data example_cache 1500 ''k'' = None"
  using boundary_instant_views_disagree
          [of example_cache "''k''" "\<lparr>item_v = Val 7, item_e = 1500\<rparr>" 1500]
        example_cache_data
  by simp

section \<open>Reading a cache without LRU list\<close>

lemma Set_no_lru:
  "lru c = None \<Longrightarrow>
   Set c now key value duration =
     c\<lparr>data := (data c)(key \<mapsto> \<lparr>item_v = value, item_e = getInternalExpire now duration\<rparr>),
       eventList := eventList c @ [(key, getInternalExpire now duration)]\<rparr>"
  by (simp add: Set_def Let_def handleLruKey_def memoryData_Set_def)

lemma fresh_fields:
  "data fresh = Map.empty" "lru fresh = None" "eventList fresh = []" "closed fresh = False"
  "expireTimes fresh = Map.empty" "expireSets fresh = Map.empty"
  by (simp_all add: fresh_def NewAdapterMemory_def doNewAdapterMemory_def newMemoryData_def)

lemma Get_value:
  "snd (Get c now key) =
     (case data c key of
        Some item \<Rightarrow> if IsExpired item now then None else Some (item_v item)
      | None \<Rightarrow> None)"
  by (simp add: Get_def memoryData_Get_def split: option.splits)

lemma Contains_value: "snd (Contains c now key) \<longleftrightarrow> snd (Get c now key) \<noteq> None"
  by (cases "Get c now key") (simp add: Contains_def)

lemma Keys_iff: "k \<in> Keys c now \<longleftrightarrow> (\<exists>item. data c k = Some item \<and> now < item_e item)"
  by (auto simp: Keys_def memoryData_Keys_def)

lemma Data_value:
  "Data c now k =
     (case data c k of
        Some item \<Rightarrow> if now < item_e item then Some (item_v item) else None
      | None \<Rightarrow> None)"
  by (simp add: Data_def memoryData_Data_def)

lemma Size_singleton:
  "memoryData_Size (Map.empty(k \<mapsto> item)) now = (if now < item_e item then 1 else 0)"
proof -
  have "{k' \<in> dom (Map.empty(k \<mapsto> item)). now < item_e (the ((Map.empty(k \<mapsto> item)) k'))}
        = (if now < item_e item then {k} else {})"
    by auto
  then show ?thesis by (simp add: memoryData_Size_def)
qed

text \<open>
  C1 says that \<open>Set\<close> with a nil value or a negative duration removes the key. The code
  stores the entry in both cases. On a new cache at clock 1000: after \<open>Set("a", nil, 0)\<close>
  the key is read back as a box holding nil, \<open>Contains\<close> is true, \<open>GetExpire\<close> is not -1,
  and \<open>Keys\<close> and \<open>Data\<close> have the key; after \<open>Set("a", 1, -1ns)\<close> the value is read back
  and \<open>GetExpire\<close> is 0; after \<open>Set("a", 1, -5ms)\<close> \<open>GetExpire\<close> is -5ms.
\<close>

theorem Set_nil_or_negative_stores:
  "snd (Get (Set fresh 1000 ''a'' Nil 0) 1000 ''a'') = Some Nil
   \<and> snd (Contains (Set fresh 1000 ''a'' Nil 0) 1000 ''a'')
   \<and> snd (GetExpire (Set fresh 1000 ''a'' Nil 0) 1000 ''a'') = 9223372035854000000
   \<and> ''a'' \<in> Keys (Set fresh 1000 ''a'' Nil 0) 1000
   \<and> Data (Set fresh 1000 ''a'' Nil 0) 1000 ''a'' = Some Nil
   \<and> snd (Get (Set fresh 1000 ''a'' (Val 1) (- 1)) 1000 ''a'') = Some (Val 1)
   \<and> snd (GetExpire (Set fresh 1000 ''a'' (Val 1) (- 1)) 1000 ''a'') = 0
   \<and> snd (GetExpire (Set fresh 1000 ''a'' (Val 1) (- 5000000)) 1000 ''a'') = - 5000000"
  by (simp add: Set_no_lru fresh_fields Get_value Contains_value GetExpire_value
      Keys_iff Data_value getInternalExpire_def defaultMaxExpire_def IsExpired_def
      int64_def Millisecond_def go_div_def)

text \<open>
  C2 says that \<open>GetExpire\<close> is 0 for a key that never expires. The code returns the
  distance from the clock to the sentinel timestamp: on a new cache at clock 1000, after
  \<open>Set("a", 1, 0)\<close> the entry has the timestamp 9223372036854 and \<open>GetExpire\<close> is
  9223372035854000000 nanoseconds. For a key that is absent it is -1.
\<close>

theorem GetExpire_never_expiring:
  "data (Set fresh 1000 ''a'' (Val 1) 0) ''a'' = Some \<lparr>item_v = Val 1, item_e = defaultMaxExpire\<rparr>
   \<and> snd (GetExpire (Set fresh 1000 ''a'' (Val 1) 0) 1000 ''a'') = 9223372035854000000
   \<and> snd (GetExpire (Set fresh 1000 ''a'' (Val 1) 0) 1000 ''a'') \<noteq> 0
   \<and> snd (GetExpire (Set fresh 1000 ''a'' (Val 1) 0) 1000 ''b'') = - 1"
  by (simp add: Set_no_lru fresh_fields GetExpire_value getInternalExpire_def
      defaultMaxExpire_def int64_def Millisecond_def)

section \<open>Close\<close>

text \<open>
  C3, as stated: after \<open>Close\<close> a key that was set and has not expired reads as absent
  and \<open>Size\<close> is 0. It fails: on a new cache, after \<open>Set("a", 1, 0)\<close> and \<open>Close\<close>, the
  key is read back, \<open>Contains\<close> is true and \<open>Size\<close> is 1.
\<close>

theorem Close_keeps_entries_counterexample:
  "snd (Get (Close (Set fresh 1000 ''a'' (Val 1) 0)) 2000 ''a'') = Some (Val 1)
   \<and> snd (Contains (Close (Set fresh 1000 ''a'' (Val 1) 0)) 2000 ''a'')
   \<and> Size (Close (Set fresh 1000 ''a'' (Val 1) 0)) 2000 = 1"
  by (simp add: Close_def Set_no_lru fresh_fields Get_value Contains_value Size_def
      Size_singleton getInternalExpire_def defaultMaxExpire_def IsExpired_def)

text \<open>
  C3, amended: \<open>Close\<close> changes the closed flag only. The data map is as before, so
  \<open>Get\<close>, \<open>Contains\<close>, \<open>Size\<close>, \<open>Keys\<close>, \<open>Data\<close> and \<open>Values\<close> return what they returned
  before \<open>Close\<close>, without error; the sweeper, run on the closed cache, stops its timer
  and changes nothing.
\<close>

theorem Close_changes_flag_only:
  "data (Close c) = data c
   \<and> snd (Get (Close c) now k) = snd (Get c now k)
   \<and> snd (Contains (Close c) now k) = snd (Contains c now k)
   \<and> Size (Close c) now = Size c now
   \<and> Keys (Close c) now = Keys c now
   \<and> Data (Close c) now = Data c now
   \<and> Values (Close c) now = Values c now
   \<and> syncEventAndClearExpired (Close c) now = (Close c, True)"
  by (simp add: Close_def Get_value Contains_value Size_def Keys_def Data_def Values_def
      syncEventAndClearExpired_def)

theorem Close_changes_flag_only_witness:
  "snd (Get (Close example_cache) 1200 ''k'') = snd (Get example_cache 1200 ''k'')
   \<and> snd (Get (Close example_cache) 1200 ''k'') = Some (Val 7)
   \<and> Size (Close example_cache) 1200 = Size example_cache 1200
   \<and> syncEventAndClearExpired (Close example_cache) 1200 = (Close example_cache, True)"
  using Close_changes_flag_only [of example_cache 1200 "''k''"]
  by (simp add: Get_value example_cache_data IsExpired_def)

section \<open>SetIfNotExist\<close>

lemma doRemove_single_data:
  "data (fst (doRemove c now [x])) = (data c)(x := None)"
  by (auto simp: doRemove_def memoryData_Remove_def split: option.splits)

lemma doRemove_lru: "lru (fst (doRemove c now keys)) = lru c"
  by (simp add: doRemove_def split: prod.splits)

lemma doSaveAndEvict_cases:
  assumes "0 < cap l" and "distinct (lst l)"
  obtains (keep) rest where "doSaveAndEvict l key = (l\<lparr>lst := key # rest\<rparr>, None)"
      and "distinct (key # rest)"
    | (evict) rest x where "doSaveAndEvict l key = (l\<lparr>lst := key # rest\<rparr>, Some x)"
      and "x \<noteq> key" and "distinct (key # rest)"
proof (cases "key \<in> set (lst l) \<and> hd (lst l) = key")
  case True
  then have "lst l = key # tl (lst l)" by (cases "lst l") auto
  then have "l\<lparr>lst := key # tl (lst l)\<rparr> = l" "distinct (key # tl (lst l))"
    using assms(2) by (simp, metis)
  with True keep [of "tl (lst l)"] show ?thesis by (simp add: doSaveAndEvict_def)
next
  case False
  define r where "r = (if key \<in> set (lst l) then remove1 key (lst l) else lst l)"
  have d: "distinct (key # r)" using assms(2) by (auto simp: r_def)
  show ?thesis
  proof (cases "int (Suc (length r)) \<le> cap l")
    case True
    with False have "doSaveAndEvict l key = (l\<lparr>lst := key # r\<rparr>, None)"
      by (auto simp: doSaveAndEvict_def Let_def r_def)
    then show ?thesis using d keep by blast
  next
    case le: False
    then have ne: "r \<noteq> []" using assms(1) by auto
    then have "last (key # r) = last r" "last r \<in> set r" by auto
    then have x: "last (key # r) \<noteq> key" using d by auto
    have "distinct (butlast (key # r))" using d distinct_butlast by blast
    moreover have "butlast (key # r) = key # butlast r" using ne by simp
    ultimately have d': "distinct (key # butlast r)" by simp
    from False le have "doSaveAndEvict l key
        = (l\<lparr>lst := butlast (key # r)\<rparr>, Some (last (key # r)))"
      by (auto simp: doSaveAndEvict_def Let_def r_def)
    then have "doSaveAndEvict l key = (l\<lparr>lst := key # butlast r\<rparr>, Some (last (key # r)))"
      using ne by simp
    then show ?thesis using evict x d' by blast
  qed
qed

lemma handleLruKey_touch:
  assumes "lru_wf c"
  shows "data (handleLruKey c now [key]) key = data c key
         \<and> lru_wf (handleLruKey c now [key]) \<and> at_front (handleLruKey c now [key]) key"
proof (cases "lru c")
  case None
  then show ?thesis using assms by (simp add: handleLruKey_def lru_wf_def at_front_def)
next
  case (Some l)
  with assms have wf: "0 < cap l" "distinct (lst l)" by (simp_all add: lru_wf_def)
  from wf show ?thesis
  proof (cases rule: doSaveAndEvict_cases [where key = key])
    case (keep rest)
    then show ?thesis using Some wf
      by (simp add: handleLruKey_def lru_wf_def at_front_def)
  next
    case (evict rest x)
    then show ?thesis using Some wf
      by (simp add: handleLruKey_def lru_wf_def at_front_def doRemove_single_data doRemove_lru)
  qed
qed

lemma handleLruKey_at_front:
  assumes "at_front c key"
  shows "handleLruKey c now [key] = c"
proof (cases "lru c")
  case None
  then show ?thesis by (simp add: handleLruKey_def)
next
  case (Some l)
  with assms obtain rest where "lst l = key # rest"
    by (auto simp: at_front_def split: list.splits)
  then have "doSaveAndEvict l key = (l, None)" by (simp add: doSaveAndEvict_def)
  with Some show ?thesis by (simp add: handleLruKey_def)
qed


lemma Get_live:
  assumes "data c key = Some item" and "\<not> IsExpired item now" and "at_front c key"
  shows "Get c now key = (c, Some (item_v item))"
  using assms by (simp add: Get_def memoryData_Get_def handleLruKey_at_front)

lemma Get_not_live:
  assumes "\<not> live (data c) key now"
  shows "Get c now key = (c, None)"
  using assms by (auto simp: Get_def memoryData_Get_def live_def split: option.splits)

lemma SetIfNotExist_absent:
  assumes "\<not> live (data c) key now" and "\<forall>f. value \<noteq> Func f" and "lru_wf c"
  shows "\<exists>c'. SetIfNotExist c now key value duration = (c', True, None)
           \<and> data c' key = Some \<lparr>item_v = value, item_e = getInternalExpire now duration\<rparr>
           \<and> lru_wf c' \<and> at_front c' key"
proof -
  let ?e = "getInternalExpire now duration"
  let ?c2 = "c\<lparr>data := (data c)(key \<mapsto> \<lparr>item_v = value, item_e = ?e\<rparr>),
               eventList := eventList c @ [(key, ?e)]\<rparr>"
  have s: "SetWithLock (data c) now key value ?e
           = ((data c)(key \<mapsto> \<lparr>item_v = value, item_e = ?e\<rparr>), value, None, 0)"
    using assms(1,2) by (cases "value") (auto simp: SetWithLock_def live_def split: option.splits)
  have d: "doSetWithLockCheck c now key value duration = (?c2, Some value, None)"
    by (simp add: doSetWithLockCheck_def Let_def s)
  have r: "SetIfNotExist c now key value duration = (handleLruKey ?c2 now [key], True, None)"
    by (simp add: SetIfNotExist_def Contains_def Get_not_live [OF assms(1)] d)
  have "lru_wf ?c2" using assms(3) by (simp add: lru_wf_def)
  from handleLruKey_touch [OF this, of now key] r show ?thesis by simp
qed

lemma SetIfNotExist_live:
  assumes "data c key = Some item" and "\<not> IsExpired item now" and "at_front c key"
  shows "SetIfNotExist c now key value duration = (c, False, None)"
  by (simp add: SetIfNotExist_def Contains_def Get_live [OF assms] handleLruKey_at_front [OF assms(3)])

text \<open>
  C8: on a cache where \<open>k\<close> is not live, for a plain value \<open>v1\<close> (a value, not a
  producer function), any value \<open>v2\<close> and a positive duration, \<open>SetIfNotExist(k, v1, d)\<close>
  returns true, a following \<open>SetIfNotExist(k, v2, d)\<close> made while the first entry has
  not expired returns false, and \<open>Get(k)\<close>, while the entry has not expired, returns
  \<open>v1\<close>. The cache has no LRU list or one of positive capacity.
\<close>

theorem SetIfNotExist_first_wins:
  assumes absent: "\<not> live (data c) k now1"
    and plain: "\<forall>f. v1 \<noteq> Func f"
    and wf: "lru_wf c"
    and pos: "0 < d"
    and live2: "now2 \<le> getInternalExpire now1 d"
    and live3: "now3 \<le> getInternalExpire now1 d"
  shows "case SetIfNotExist c now1 k v1 d of
           (c1, added1, err1) \<Rightarrow>
             added1 \<and> err1 = None
             \<and> (case SetIfNotExist c1 now2 k v2 d of
                   (c2, added2, err2) \<Rightarrow>
                     \<not> added2 \<and> err2 = None \<and> snd (Get c2 now3 k) = Some v1)"
proof -
  let ?item = "\<lparr>item_v = v1, item_e = getInternalExpire now1 d\<rparr>"
  from SetIfNotExist_absent [OF absent plain wf, of d]
  obtain c1 where 1: "SetIfNotExist c now1 k v1 d = (c1, True, None)"
    and d1: "data c1 k = Some ?item" and f1: "at_front c1 k"
    by blast
  have n2: "\<not> IsExpired ?item now2" using live2 by (simp add: IsExpired_def)
  have n3: "\<not> IsExpired ?item now3" using live3 by (simp add: IsExpired_def)
  have 2: "SetIfNotExist c1 now2 k v2 d = (c1, False, None)"
    by (rule SetIfNotExist_live [OF d1 n2 f1])
  have 3: "Get c1 now3 k = (c1, Some v1)"
    using Get_live [OF d1 n3 f1] by simp
  show ?thesis by (simp add: 1 2 3)
qed

lemma fresh_lru_fields:
  "data fresh_lru = Map.empty" "lru fresh_lru = Some \<lparr>cap = 2, lst = []\<rparr>"
  "eventList fresh_lru = []" "closed fresh_lru = False"
  "expireTimes fresh_lru = Map.empty" "expireSets fresh_lru = Map.empty"
  by (simp_all add: fresh_lru_def NewAdapterMemoryLru_def doNewAdapterMemory_def
      newMemoryData_def newMemoryLru_def)

theorem SetIfNotExist_first_wins_witness:
  "\<not> live (data fresh_lru) ''k'' 1000
   \<and> (\<forall>f. (Val 1 :: (nat, string) any) \<noteq> Func f)
   \<and> lru_wf fresh_lru
   \<and> (0 :: int) < 1000000000
   \<and> 1500 \<le> getInternalExpire 1000 1000000000
   \<and> 1800 \<le> getInternalExpire 1000 1000000000
   \<and> (case SetIfNotExist fresh_lru 1000 ''k'' (Val 1) 1000000000 of
         (c1, added1, err1) \<Rightarrow>
           added1 \<and> err1 = None
           \<and> (case SetIfNotExist c1 1500 ''k'' (Val 2) 1000000000 of
                 (c2, added2, err2) \<Rightarrow>
                   \<not> added2 \<and> err2 = None \<and> snd (Get c2 1800 ''k'') = Some (Val 1)))"
proof -
  have a: "\<not> live (data fresh_lru) ''k'' 1000"
    by (simp add: live_def fresh_lru_fields)
  have p: "\<forall>f. (Val 1 :: (nat, string) any) \<noteq> Func f" by simp
  have w: "lru_wf fresh_lru" by (simp add: lru_wf_def fresh_lru_fields)
  have e: "getInternalExpire 1000 1000000000 = 2000"
    by (simp add: getInternalExpire_def go_div_def int64_def)
  have l2: "1500 \<le> getInternalExpire 1000 1000000000" by (simp add: e)
  have l3: "1800 \<le> getInternalExpire 1000 1000000000" by (simp add: e)
  have d: "(0 :: int) < 1000000000" by simp
  from SetIfNotExist_first_wins [OF a p w d l2 l3, of "Val 2"] a p w l2 l3
  show ?thesis by simp
qed

section \<open>LRU eviction\<close>

lemma op_key_simp: "op_key (now, key, value, duration) = key"
  by (simp add: op_key_def)

lemma op_event_simp:
  "op_event (now, key, value, duration) = (key, getInternalExpire now duration)"
  by (simp add: op_event_def)

lemma SetAll_snoc:
  "SetAll c (ops @ [(now, key, value, duration)]) = Set (SetAll c ops) now key value duration"
  by (induction c ops rule: SetAll.induct) simp_all

lemma Set_fill:
  assumes "lru c = Some l" and "key \<notin> set (lst l)" and "int (length (lst l)) < cap l"
  shows "Set c now key value duration =
     c\<lparr>data := (data c)(key \<mapsto> \<lparr>item_v = value, item_e = getInternalExpire now duration\<rparr>),
       eventList := eventList c @ [(key, getInternalExpire now duration)],
       lru := Some (l\<lparr>lst := key # lst l\<rparr>)\<rparr>"
proof -
  have "doSaveAndEvict l key = (l\<lparr>lst := key # lst l\<rparr>, None)"
    using assms(2,3) by (simp add: doSaveAndEvict_def Let_def)
  then show ?thesis
    using assms(1) by (simp add: Set_def Let_def handleLruKey_def memoryData_Set_def)
qed

lemma Set_evict:
  assumes "lru c = Some l" and "key \<notin> set (lst l)" and "int (length (lst l)) = cap l"
    and "lst l \<noteq> []" and "data c (last (lst l)) \<noteq> None"
  shows "Set c now key value duration =
     c\<lparr>data := ((data c)(key \<mapsto> \<lparr>item_v = value, item_e = getInternalExpire now duration\<rparr>))
                 (last (lst l) := None),
       eventList := eventList c @ [(key, getInternalExpire now duration),
                                   (last (lst l), int64 (now - 1000))],
       lru := Some (l\<lparr>lst := key # butlast (lst l)\<rparr>)\<rparr>"
proof -
  have ne: "last (lst l) \<noteq> key" using assms(2,4) last_in_set by metis
  have "doSaveAndEvict l key = (l\<lparr>lst := key # butlast (lst l)\<rparr>, Some (last (lst l)))"
    using assms(2,3,4) by (simp add: doSaveAndEvict_def Let_def)
  then show ?thesis
    using assms(1,5) ne
    by (auto simp: Set_def Let_def handleLruKey_def memoryData_Set_def doRemove_def
        memoryData_Remove_def)
qed

lemma SetAll_fill:
  assumes "distinct (map op_key ops)" and "int (length ops) \<le> C"
  shows "lru (SetAll (NewAdapterMemoryLru C) ops) = Some \<lparr>cap = C, lst = rev (map op_key ops)\<rparr>
         \<and> dom (data (SetAll (NewAdapterMemoryLru C) ops)) = set (map op_key ops)
         \<and> eventList (SetAll (NewAdapterMemoryLru C) ops) = map op_event ops"
  using assms
proof (induction ops rule: rev_induct)
  case Nil
  show ?case
    by (simp add: NewAdapterMemoryLru_def doNewAdapterMemory_def newMemoryLru_def
        newMemoryData_def)
next
  case (snoc op ops)
  obtain now key "value" duration where op: "op = (now, key, value, duration)"
    by (cases op) auto
  let ?c = "SetAll (NewAdapterMemoryLru C) ops"
  from snoc have ih: "lru ?c = Some \<lparr>cap = C, lst = rev (map op_key ops)\<rparr>"
      "dom (data ?c) = set (map op_key ops)" "eventList ?c = map op_event ops"
    by simp_all
  have k: "key \<notin> set (lst \<lparr>cap = C, lst = rev (map op_key ops)\<rparr>)"
    using snoc.prems(1) by (simp add: op op_key_simp)
  have n: "int (length (lst \<lparr>cap = C, lst = rev (map op_key ops)\<rparr>))
           < cap \<lparr>cap = C, lst = rev (map op_key ops)\<rparr>"
    using snoc.prems(2) by simp
  have S: "SetAll (NewAdapterMemoryLru C) (ops @ [op]) =
     ?c\<lparr>data := (data ?c)(key \<mapsto> \<lparr>item_v = value, item_e = getInternalExpire now duration\<rparr>),
        eventList := eventList ?c @ [(key, getInternalExpire now duration)],
        lru := Some (\<lparr>cap = C, lst = rev (map op_key ops)\<rparr>
                       \<lparr>lst := key # lst \<lparr>cap = C, lst = rev (map op_key ops)\<rparr>\<rparr>)\<rparr>"
    unfolding op SetAll_snoc Set_fill [OF ih(1) k n] ..
  have 1: "lru (SetAll (NewAdapterMemoryLru C) (ops @ [op]))
           = Some \<lparr>cap = C, lst = rev (map op_key (ops @ [op]))\<rparr>"
    unfolding S by (simp add: op op_key_simp)
  have 2: "dom (data (SetAll (NewAdapterMemoryLru C) (ops @ [op]))) = set (map op_key (ops @ [op]))"
    unfolding S using ih(2) by (auto simp: op op_key_simp)
  have 3: "eventList (SetAll (NewAdapterMemoryLru C) (ops @ [op])) = map op_event (ops @ [op])"
    unfolding S by (simp add: ih(3) op op_event_simp)
  from 1 2 3 show ?case by blast
qed

text \<open>
  C6: on a new cache with LRU capacity \<open>C > 0\<close>, after \<open>C + 1\<close> \<open>Set\<close> operations on
  \<open>C + 1\<close> distinct keys and nothing else, exactly one of the keys written is missing
  from the data map, namely the first one written: the data map holds the other \<open>C\<close>
  keys, \<open>Keys\<close> does not have the first key, the LRU list holds the other keys, newest
  first, and the event list holds one event per \<open>Set\<close> followed by the one removal event
  of the eviction.
\<close>

theorem lru_evicts_first_written:
  assumes cap: "0 < C"
    and len: "int (length ops) = C + 1"
    and dist: "distinct (map op_key ops)"
  shows "set (map op_key ops) - dom (data (SetAll (NewAdapterMemoryLru C) ops))
           = {op_key (hd ops)}
         \<and> dom (data (SetAll (NewAdapterMemoryLru C) ops)) = set (map op_key (tl ops))
         \<and> op_key (hd ops) \<notin> Keys (SetAll (NewAdapterMemoryLru C) ops) now
         \<and> lru (SetAll (NewAdapterMemoryLru C) ops)
             = Some \<lparr>cap = C, lst = rev (map op_key (tl ops))\<rparr>
         \<and> eventList (SetAll (NewAdapterMemoryLru C) ops)
             = map op_event ops @ [(op_key (hd ops), int64 (fst (last ops) - 1000))]"
proof -
  from cap len have "ops \<noteq> []" by auto
  then obtain ops0 op where ops: "ops = ops0 @ [op]" by (metis rev_exhaust)
  obtain now' key "value" duration where op: "op = (now', key, value, duration)"
    by (cases op) auto
  from len ops have len0: "int (length ops0) = C" by simp
  with cap have ne0: "ops0 \<noteq> []" by auto
  from dist ops have dist0: "distinct (map op_key ops0)"
    and knew: "key \<notin> set (map op_key ops0)" by (simp_all add: op op_key_simp)
  let ?c = "SetAll (NewAdapterMemoryLru C) ops0"
  let ?l = "\<lparr>cap = C, lst = rev (map op_key ops0)\<rparr>"
  from SetAll_fill [OF dist0, of C] len0
  have ih: "lru ?c = Some ?l" "dom (data ?c) = set (map op_key ops0)"
      "eventList ?c = map op_event ops0"
    by simp_all
  have last: "last (lst ?l) = op_key (hd ops0)"
    using ne0 by (simp add: last_rev hd_map)
  have a2: "key \<notin> set (lst ?l)" using knew by simp
  have a3: "int (length (lst ?l)) = cap ?l" using len0 by simp
  have a4: "lst ?l \<noteq> []" using ne0 by simp
  have "op_key (hd ops0) \<in> dom (data ?c)" using ih(2) ne0 by simp
  then have a5: "data ?c (last (lst ?l)) \<noteq> None" unfolding last by auto
  have hd: "hd ops = hd ops0" using ne0 ops by simp
  have tl: "tl ops = tl ops0 @ [op]" using ne0 ops by simp
  obtain o1 rest where ops0: "ops0 = o1 # rest" using ne0 by (cases ops0) auto
  have hnotin: "op_key o1 \<notin> set (map op_key rest)" and hnek: "op_key o1 \<noteq> key"
    using dist0 knew by (auto simp: ops0)
  have bl: "butlast (rev (map op_key ops0)) = rev (map op_key (tl ops0))"
    by (simp add: butlast_rev map_tl)
  have S: "SetAll (NewAdapterMemoryLru C) ops =
      ?c\<lparr>data := ((data ?c)(key \<mapsto> \<lparr>item_v = value, item_e = getInternalExpire now' duration\<rparr>))
                 (op_key (hd ops0) := None),
         eventList := eventList ?c @ [(key, getInternalExpire now' duration),
                                      (op_key (hd ops0), int64 (now' - 1000))],
         lru := Some (?l\<lparr>lst := key # butlast (lst ?l)\<rparr>)\<rparr>"
    unfolding ops op SetAll_snoc Set_evict [OF ih(1) a2 a3 a4 a5] last ..
  have domeq: "dom (data (SetAll (NewAdapterMemoryLru C) ops)) = set (map op_key (tl ops))"
  proof -
    have "dom (data (SetAll (NewAdapterMemoryLru C) ops))
          = insert key (set (map op_key ops0)) - {op_key (hd ops0)}"
      unfolding S using ih(2) by auto
    also have "\<dots> = insert key (set (map op_key rest))"
    proof -
      have "insert key (insert (op_key o1) (set (map op_key rest))) - {op_key o1}
            = insert key (set (map op_key rest))"
        using hnotin hnek by blast
      then show ?thesis by (simp add: ops0)
    qed
    also have "\<dots> = set (map op_key (tl ops))"
      by (simp add: tl ops0 op op_key_simp)
    finally show ?thesis .
  qed
  have keys: "set (map op_key ops) = insert (op_key (hd ops)) (set (map op_key (tl ops)))"
    using \<open>ops \<noteq> []\<close> by (cases ops) auto
  have hnotin': "op_key (hd ops) \<notin> set (map op_key (tl ops))"
    using dist \<open>ops \<noteq> []\<close> by (cases ops) auto
  have 1: "set (map op_key ops) - dom (data (SetAll (NewAdapterMemoryLru C) ops))
           = {op_key (hd ops)}"
    unfolding domeq using keys hnotin' by auto
  have 3: "op_key (hd ops) \<notin> Keys (SetAll (NewAdapterMemoryLru C) ops) now"
    using hnotin' domeq by (auto simp: Keys_def memoryData_Keys_def)
  have 4: "lru (SetAll (NewAdapterMemoryLru C) ops)
             = Some \<lparr>cap = C, lst = rev (map op_key (tl ops))\<rparr>"
    unfolding S by (simp add: ops0 tl op op_key_simp)
  have 5: "eventList (SetAll (NewAdapterMemoryLru C) ops)
             = map op_event ops @ [(op_key (hd ops), int64 (fst (last ops) - 1000))]"
    unfolding S ih(3) by (simp add: ops ops0 op op_event_simp)
  from 1 domeq 3 4 5 show ?thesis by blast
qed

theorem lru_evicts_first_written_witness:
  "(0 :: int) < 2 \<and> int (length three_sets) = 2 + 1 \<and> distinct (map op_key three_sets)
   \<and> set (map op_key three_sets)
         - dom (data (SetAll (NewAdapterMemoryLru 2 :: (string, nat, string) AdapterMemory)
                  three_sets))
       = {''a''}
   \<and> dom (data (SetAll (NewAdapterMemoryLru 2 :: (string, nat, string) AdapterMemory)
             three_sets))
       = {''b'', ''c''}
   \<and> ''a'' \<notin> Keys (SetAll (NewAdapterMemoryLru 2 :: (string, nat, string) AdapterMemory)
                   three_sets) 1003"
proof -
  have c: "(0 :: int) < 2" by simp
  have l: "int (length three_sets) = 2 + 1" by (simp add: three_sets_def)
  have d: "distinct (map op_key three_sets)" by (simp add: three_sets_def op_key_def)
  from lru_evicts_first_written [OF c l d, where now = 1003] c l d
  show ?thesis by (auto simp: three_sets_def op_key_def)
qed

section \<open>The drain phase of the sweeper\<close>

lemma bucket_keys_iff: "k \<in> bucket_keys m b \<longleftrightarrow> (\<exists>s. m b = Some s \<and> k \<in> s)"
  by (auto simp: bucket_keys_def split: option.splits)

lemma index_inv_iff:
  "index_inv c \<longleftrightarrow> (\<forall>k b. k \<in> bucket_keys (expireSets c) b \<longleftrightarrow> expireTimes c k = Some b)"
proof
  assume "index_inv c"
  then show "\<forall>k b. k \<in> bucket_keys (expireSets c) b \<longleftrightarrow> expireTimes c k = Some b"
    unfolding index_inv_def bucket_keys_iff by blast
next
  assume a: "\<forall>k b. k \<in> bucket_keys (expireSets c) b \<longleftrightarrow> expireTimes c k = Some b"
  have 1: "\<forall>k b. expireTimes c k = Some b \<longrightarrow> (\<exists>s. expireSets c b = Some s \<and> k \<in> s)"
    using a unfolding bucket_keys_iff by blast
  have 2: "\<forall>b s k. expireSets c b = Some s \<and> k \<in> s \<longrightarrow> expireTimes c k = Some b"
    using a unfolding bucket_keys_iff by blast
  have 3: "\<forall>b b' s s' k. expireSets c b = Some s \<and> k \<in> s
            \<and> expireSets c b' = Some s' \<and> k \<in> s' \<longrightarrow> b = b'"
  proof (intro allI impI)
    fix b b' s s' k
    assume h: "expireSets c b = Some s \<and> k \<in> s \<and> expireSets c b' = Some s' \<and> k \<in> s'"
    then have "expireTimes c k = Some b" "expireTimes c k = Some b'" using 2 by blast+
    then show "b = b'" by simp
  qed
  from 1 2 3 show "index_inv c" unfolding index_inv_def by blast
qed

lemma expireSets_Add_eq:
  "expireSets_Add m b k = m(b \<mapsto> insert k (bucket_keys m b))"
  by (auto simp: expireSets_Add_def GetOrNew_def bucket_keys_def split: option.splits)

lemma expireSets_Remove_eq:
  "expireSets_Remove m b k = m(b \<mapsto> bucket_keys m b - {k})"
  by (auto simp: expireSets_Remove_def GetOrNew_def bucket_keys_def split: option.splits)

lemma bucket_keys_upd:
  "bucket_keys (m(b \<mapsto> s)) b' = (if b' = b then s else bucket_keys m b')"
  by (simp add: bucket_keys_def)

lemma syncEvent_index_inv:
  assumes "index_inv c" and "no_zero_bucket c" and "makeExpireKey (snd event) \<noteq> 0"
  shows "index_inv (syncEvent c event) \<and> no_zero_bucket (syncEvent c event)"
proof -
  obtain k e where ev: "event = (k, e)" by (cases event)
  let ?new = "makeExpireKey e"
  from assms(3) have nz: "?new \<noteq> 0" by (simp add: ev)
  from assms(1) have inv: "\<And>k b. k \<in> bucket_keys (expireSets c) b \<longleftrightarrow> expireTimes c k = Some b"
    by (simp add: index_inv_iff)
  from assms(2) have z: "\<And>k. expireTimes c k \<noteq> Some 0" by (simp add: no_zero_bucket_def)
  show ?thesis
  proof (cases "expireTimes c k")
    case None
    then have s: "syncEvent c event =
        c\<lparr>expireSets := (expireSets c)(?new \<mapsto> insert k (bucket_keys (expireSets c) ?new)),
          expireTimes := (expireTimes c)(k \<mapsto> ?new)\<rparr>"
      using nz by (simp add: syncEvent_def Let_def expireTimes_Get_def ev expireSets_Add_eq)
    have "index_inv (syncEvent c event)"
      unfolding s index_inv_iff using inv None by (auto simp: bucket_keys_upd)
    moreover have "no_zero_bucket (syncEvent c event)"
      unfolding s no_zero_bucket_def using z nz by auto
    ultimately show ?thesis ..
  next
    case (Some old)
    with z have oz: "old \<noteq> 0" by metis
    show ?thesis
    proof (cases "?new = old")
      case True
      then have "syncEvent c event = c"
        using Some by (simp add: syncEvent_def Let_def expireTimes_Get_def ev)
      then show ?thesis using assms by simp
    next
      case False
      let ?s1 = "(expireSets c)(?new \<mapsto> insert k (bucket_keys (expireSets c) ?new))"
      have s: "syncEvent c event =
          c\<lparr>expireSets := ?s1(old \<mapsto> bucket_keys ?s1 old - {k}),
            expireTimes := (expireTimes c)(k \<mapsto> ?new)\<rparr>"
        using False Some oz
        by (simp add: syncEvent_def Let_def expireTimes_Get_def ev expireSets_Add_eq
            expireSets_Remove_eq)
      have "index_inv (syncEvent c event)"
        unfolding s index_inv_iff using inv Some False by (auto simp: bucket_keys_upd)
      moreover have "no_zero_bucket (syncEvent c event)"
        unfolding s no_zero_bucket_def using z nz by auto
      ultimately show ?thesis ..
    qed
  qed
qed


lemma drainEvents_Nil: "eventList c = [] \<Longrightarrow> drainEvents c = c"
  by (subst drainEvents.simps) simp

lemma drainEvents_Cons:
  "eventList c = event # rest \<Longrightarrow>
   drainEvents c = drainEvents (syncEvent (c\<lparr>eventList := rest\<rparr>) event)"
  by (subst drainEvents.simps) simp

lemma syncEvent_eventList: "eventList (syncEvent c event) = eventList c"
  by (simp add: syncEvent_def Let_def)

lemma index_inv_eventList: "index_inv (c\<lparr>eventList := es\<rparr>) = index_inv c"
  by (simp add: index_inv_def)

lemma no_zero_bucket_eventList: "no_zero_bucket (c\<lparr>eventList := es\<rparr>) = no_zero_bucket c"
  by (simp add: no_zero_bucket_def)

lemma drainEvents_index_inv:
  "index_inv c \<Longrightarrow> no_zero_bucket c \<Longrightarrow>
   (\<forall>event \<in> set (eventList c). makeExpireKey (snd event) \<noteq> 0) \<Longrightarrow>
   index_inv (drainEvents c) \<and> no_zero_bucket (drainEvents c) \<and> eventList (drainEvents c) = []"
proof (induction c rule: drainEvents.induct)
  case (1 c)
  show ?case
  proof (cases "eventList c")
    case Nil
    then show ?thesis using "1.prems" by (simp add: drainEvents_Nil)
  next
    case (Cons event rest)
    let ?c' = "syncEvent (c\<lparr>eventList := rest\<rparr>) event"
    have e: "makeExpireKey (snd event) \<noteq> 0" using "1.prems"(3) Cons by simp
    have "index_inv (c\<lparr>eventList := rest\<rparr>)" "no_zero_bucket (c\<lparr>eventList := rest\<rparr>)"
      using "1.prems"(1,2) by (simp_all add: index_inv_eventList no_zero_bucket_eventList)
    from syncEvent_index_inv [OF this e]
    have i: "index_inv ?c'" and z: "no_zero_bucket ?c'" by simp_all
    have r: "\<forall>event \<in> set (eventList ?c'). makeExpireKey (snd event) \<noteq> 0"
      using "1.prems"(3) Cons by (simp add: syncEvent_eventList)
    from "1.IH" [OF Cons i z r] show ?thesis
      by (simp add: drainEvents_Cons [OF Cons])
  qed
qed

lemma moved_through_zero_drained:
  "expireTimes (drainEvents moved_through_zero) ''k'' = Some 8000
   \<and> expireSets (drainEvents moved_through_zero) 0 = Some {''k''}
   \<and> expireSets (drainEvents moved_through_zero) 8000 = Some {''k''}"
  by (simp add: moved_through_zero_def drainEvents_Cons drainEvents_Nil syncEvent_def Let_def
      expireTimes_Get_def expireSets_Add_eq expireSets_Remove_eq bucket_keys_def
      fresh_fields makeExpireKey_int go_div_def)

text \<open>
  C7, as stated: the drain phase keeps the index invariants for any sequence of events.
  It fails on the events \<open>("k", 5000), ("k", -1500), ("k", 7000)\<close> drained into empty
  indexes: the second event moves the key to bucket 0, which \<open>expireTimes.Get\<close> cannot
  tell from an absent key, so the third event leaves the key in bucket 0 and also puts
  it in bucket 8000.
\<close>

theorem drain_breaks_index_counterexample:
  "index_inv moved_through_zero \<and> \<not> index_inv (drainEvents moved_through_zero)"
proof
  show "index_inv moved_through_zero"
    by (simp add: index_inv_def moved_through_zero_def fresh_fields)
  show "\<not> index_inv (drainEvents moved_through_zero)"
  proof
    assume "index_inv (drainEvents moved_through_zero)"
    then have "expireTimes (drainEvents moved_through_zero) ''k'' = Some 0"
      unfolding index_inv_def using moved_through_zero_drained by blast
    then show False using moved_through_zero_drained by simp
  qed
qed

text \<open>
  C7, amended: from a state that satisfies the index invariants and maps no key to
  bucket 0, draining any sequence of events none of which has the bucket key 0 (every
  event with a non-negative timestamp is one) gives a state that satisfies the index
  invariants and maps no key to bucket 0.
\<close>

theorem drain_preserves_index_inv:
  assumes "index_inv c" and "no_zero_bucket c"
    and "\<forall>event \<in> set (eventList c). makeExpireKey (snd event) \<noteq> 0"
  shows "index_inv (drainEvents c) \<and> no_zero_bucket (drainEvents c)"
  using drainEvents_index_inv [OF assms] by simp

theorem drain_preserves_index_inv_witness:
  "index_inv moved_once \<and> no_zero_bucket moved_once
   \<and> eventList moved_once = [(''k'', 5000), (''k'', 7000)]
   \<and> makeExpireKey 5000 \<noteq> 0 \<and> makeExpireKey 7000 \<noteq> 0
   \<and> index_inv (drainEvents moved_once) \<and> no_zero_bucket (drainEvents moved_once)"
proof -
  have i: "index_inv moved_once"
    by (simp add: index_inv_def moved_once_def fresh_fields)
  have z: "no_zero_bucket moved_once"
    by (simp add: no_zero_bucket_def moved_once_def fresh_fields)
  have e: "\<forall>event \<in> set (eventList moved_once). makeExpireKey (snd event) \<noteq> 0"
    by (simp add: moved_once_def makeExpireKey_int go_div_def)
  have l: "eventList moved_once = [(''k'', 5000), (''k'', 7000)]"
    by (simp add: moved_once_def)
  have n: "makeExpireKey 5000 \<noteq> 0" "makeExpireKey 7000 \<noteq> 0"
    by (simp_all add: makeExpireKey_int go_div_def)
  from drain_preserves_index_inv [OF i z e] i z l n show ?thesis by blast
qed

lemma nonneg_events_have_bucket:
  "\<forall>event \<in> set es. 0 \<le> snd event \<Longrightarrow> \<forall>event \<in> set es. makeExpireKey (snd event) \<noteq> 0"
  using makeExpireKey_nonneg by fastforce

section \<open>The LRU list of a reachable cache\<close>

text \<open>
  Every reachable cache has an LRU list that covers its data map. So in a reachable
  cache each stored key is tracked (\<open>lru_tracks\<close>) and the list is well formed
  (\<open>lru_wf\<close>): the conditions under which \<open>Update\<close> and \<open>SetIfNotExist\<close> are
  characterised above hold in every cache built by these operations.
\<close>

lemma doSaveAndEvict_shape:
  assumes "0 < cap l" and "distinct (lst l)" and "int (length (lst l)) \<le> cap l"
  shows "case doSaveAndEvict l key of
           (l', evicted) \<Rightarrow>
             cap l' = cap l \<and> distinct (lst l') \<and> int (length (lst l')) \<le> cap l
             \<and> key \<in> set (lst l')
             \<and> (case evicted of
                   None \<Rightarrow> set (lst l) \<subseteq> set (lst l')
                 | Some x \<Rightarrow> x \<noteq> key \<and> set (lst l) - {x} \<subseteq> set (lst l'))"
proof (cases "key \<in> set (lst l) \<and> hd (lst l) = key")
  case True
  then show ?thesis using assms by (simp add: doSaveAndEvict_def)
next
  case False
  define r where "r = (if key \<in> set (lst l) then remove1 key (lst l) else lst l)"
  have d: "distinct (key # r)" using assms(2) by (auto simp: r_def)
  have sub: "set (lst l) \<subseteq> insert key (set r)" using assms(2) by (auto simp: r_def)
  have len: "length r \<le> length (lst l)" by (simp add: r_def length_remove1)
  show ?thesis
  proof (cases "int (Suc (length r)) \<le> cap l")
    case True
    with False have "doSaveAndEvict l key = (l\<lparr>lst := key # r\<rparr>, None)"
      by (auto simp: doSaveAndEvict_def Let_def r_def)
    then show ?thesis using d sub True by auto
  next
    case le: False
    then have ne: "r \<noteq> []" using assms(1) by auto
    then have lr: "last (key # r) = last r" "last r \<in> set r" by auto
    then have x: "last r \<noteq> key" using d by auto
    have b: "butlast (key # r) = key # butlast r" using ne by simp
    have d': "distinct (key # butlast r)"
      using d distinct_butlast [of "key # r"] b by simp
    have "set (butlast r @ [last r]) = set r" using ne by simp
    then have sb: "set r - {last r} \<subseteq> set (butlast r)" by auto
    from False le have "doSaveAndEvict l key
        = (l\<lparr>lst := butlast (key # r)\<rparr>, Some (last (key # r)))"
      by (auto simp: doSaveAndEvict_def Let_def r_def)
    then have e: "doSaveAndEvict l key = (l\<lparr>lst := key # butlast r\<rparr>, Some (last r))"
      using b lr by simp
    have "int (length (key # butlast r)) \<le> cap l" using len assms(3) ne by simp
    moreover have "set (lst l) - {last r} \<subseteq> set (key # butlast r)" using sub sb by auto
    ultimately show ?thesis unfolding e using d' x by simp
  qed
qed

lemma handleLruKey_covers:
  assumes "case lru c of None \<Rightarrow> True
           | Some l \<Rightarrow> 0 < cap l \<and> distinct (lst l) \<and> int (length (lst l)) \<le> cap l
                       \<and> dom (data c) \<subseteq> insert key (set (lst l))"
  shows "lru_covers (handleLruKey c now [key])"
proof (cases "lru c")
  case None
  then show ?thesis by (simp add: handleLruKey_def lru_covers_def)
next
  case (Some l)
  with assms have a: "0 < cap l" "distinct (lst l)" "int (length (lst l)) \<le> cap l"
    and sub: "dom (data c) \<subseteq> insert key (set (lst l))" by simp_all
  obtain l' evicted where e: "doSaveAndEvict l key = (l', evicted)"
    by (cases "doSaveAndEvict l key")
  from doSaveAndEvict_shape [OF a, of key] e
  have s: "cap l' = cap l" "distinct (lst l')" "int (length (lst l')) \<le> cap l"
      "key \<in> set (lst l')"
      "case evicted of None \<Rightarrow> set (lst l) \<subseteq> set (lst l')
       | Some x \<Rightarrow> x \<noteq> key \<and> set (lst l) - {x} \<subseteq> set (lst l')"
    by simp_all
  show ?thesis
  proof (cases evicted)
    case None
    then have "handleLruKey c now [key] = c\<lparr>lru := Some l'\<rparr>"
      using Some e by (simp add: handleLruKey_def)
    then show ?thesis using s a sub None by (auto simp: lru_covers_def)
  next
    case (Some x)
    then have h: "handleLruKey c now [key] = fst (doRemove (c\<lparr>lru := Some l'\<rparr>) now [x])"
      using \<open>lru c = Some l\<close> e by (simp add: handleLruKey_def)
    have "dom (data (handleLruKey c now [key])) = dom (data c) - {x}"
      unfolding h by (auto simp: doRemove_single_data)
    moreover have "lru (handleLruKey c now [key]) = Some l'"
      unfolding h by (simp add: doRemove_lru)
    ultimately show ?thesis using s a sub Some by (auto simp: lru_covers_def)
  qed
qed


lemma handleLruKey_covers_grown:
  assumes "lru_covers c" and "lru c' = lru c" and "dom (data c') \<subseteq> insert key (dom (data c))"
  shows "lru_covers (handleLruKey c' now [key])"
proof (rule handleLruKey_covers)
  show "case lru c' of None \<Rightarrow> True
        | Some l \<Rightarrow> 0 < cap l \<and> distinct (lst l) \<and> int (length (lst l)) \<le> cap l
                    \<and> dom (data c') \<subseteq> insert key (set (lst l))"
    using assms by (auto simp: lru_covers_def split: option.splits)
qed

lemma lru_covers_shrunk:
  assumes "lru_covers c" and "lru c' = lru c" and "dom (data c') \<subseteq> dom (data c)"
  shows "lru_covers c'"
  using assms by (auto simp: lru_covers_def split: option.splits)

lemma Set_covers: "lru_covers c \<Longrightarrow> lru_covers (Set c now key value duration)"
  unfolding Set_def Let_def
  by (rule handleLruKey_covers_grown [where c = c]) (auto simp: memoryData_Set_def)

lemma Get_covers: "lru_covers c \<Longrightarrow> lru_covers (fst (Get c now key))"
  by (auto simp: Get_def split: option.splits
      intro: handleLruKey_covers_grown [where c = c])

lemma Contains_state: "fst (Contains c now key) = fst (Get c now key)"
  by (cases "Get c now key") (simp add: Contains_def)

lemma GetExpire_covers: "lru_covers c \<Longrightarrow> lru_covers (fst (GetExpire c now key))"
  by (auto simp: GetExpire_def split: option.splits
      intro: handleLruKey_covers_grown [where c = c])

lemma Update_covers:
  assumes "lru_covers c"
  shows "lru_covers (fst (Update c now key value))"
proof (cases "data c key")
  case None
  then show ?thesis using assms by (simp add: Update_def memoryData_Update_def)
next
  case (Some item)
  then have "fst (Update c now key value)
      = handleLruKey (c\<lparr>data := (data c)(key \<mapsto> \<lparr>item_v = value, item_e = item_e item\<rparr>)\<rparr>)
          now [key]"
    by (simp add: Update_def memoryData_Update_def)
  then show ?thesis
    using handleLruKey_covers_grown [OF assms, of
        "c\<lparr>data := (data c)(key \<mapsto> \<lparr>item_v = value, item_e = item_e item\<rparr>)\<rparr>" key now]
    by auto
qed

lemma SetWithLock_dom:
  "dom (fst (SetWithLock d now key value ts)) \<subseteq> insert key (dom d)"
  by (auto simp: SetWithLock_def split: any.splits sum.splits if_splits)

lemma doSetWithLockCheck_fields:
  "lru (fst (doSetWithLockCheck c now key value duration)) = lru c"
  "dom (data (fst (doSetWithLockCheck c now key value duration))) \<subseteq> insert key (dom (data c))"
proof -
  obtain d' v err calls
    where s: "SetWithLock (data c) now key value (getInternalExpire now duration)
              = (d', v, err, calls)"
    by (cases "SetWithLock (data c) now key value (getInternalExpire now duration)") auto
  then have "dom d' \<subseteq> insert key (dom (data c))"
    using SetWithLock_dom [of "data c" now key "value" "getInternalExpire now duration"]
    by simp
  then show "lru (fst (doSetWithLockCheck c now key value duration)) = lru c"
    "dom (data (fst (doSetWithLockCheck c now key value duration)))
       \<subseteq> insert key (dom (data c))"
    by (simp_all add: doSetWithLockCheck_def Let_def s)
qed

lemma SetIfNotExist_covers:
  assumes "lru_covers c"
  shows "lru_covers (fst (SetIfNotExist c now key value duration))"
proof -
  obtain c1 v where g: "Get c now key = (c1, v)" by (cases "Get c now key")
  then have c1: "lru_covers c1" using Get_covers [OF assms, of now key] by simp
  obtain c2 r err where d: "doSetWithLockCheck c1 now key value duration = (c2, r, err)"
    by (cases "doSetWithLockCheck c1 now key value duration")
  then have f: "lru c2 = lru c1" "dom (data c2) \<subseteq> insert key (dom (data c1))"
    using doSetWithLockCheck_fields [of c1 now key "value" duration] by simp_all
  have a: "lru_covers (handleLruKey c2 now [key])"
    by (rule handleLruKey_covers_grown [OF c1 f])
  have b: "lru_covers (handleLruKey c1 now [key])"
    by (rule handleLruKey_covers_grown [OF c1]) auto
  show ?thesis
    using a b by (simp add: SetIfNotExist_def Contains_def g d)
qed

lemma Close_covers: "lru_covers c \<Longrightarrow> lru_covers (Close c)"
  by (rule lru_covers_shrunk [where c = c]) (simp_all add: Close_def)

lemma drainEvents_fields:
  "data (drainEvents c) = data c \<and> lru (drainEvents c) = lru c"
proof (induction c rule: drainEvents.induct)
  case (1 c)
  show ?case
  proof (cases "eventList c")
    case Nil
    then show ?thesis by (simp add: drainEvents_Nil)
  next
    case (Cons event rest)
    with "1.IH" [OF Cons] show ?thesis
      by (simp add: drainEvents_Cons [OF Cons] syncEvent_def Let_def)
  qed
qed

lemma deleteExpiredKeys_covers:
  assumes "lru_covers c"
  shows "lru_covers (deleteExpiredKeys c keys)"
proof (cases "lru c")
  case None
  then show ?thesis by (simp add: deleteExpiredKeys_def lru_covers_def)
next
  case (Some l)
  with assms have a: "0 < cap l" "distinct (lst l)" "int (length (lst l)) \<le> cap l"
    "dom (data c) \<subseteq> set (lst l)" by (simp_all add: lru_covers_def)
  have "length (filter (\<lambda>k. k \<notin> keys) (lst l)) \<le> length (lst l)" by simp
  then have "int (length (filter (\<lambda>k. k \<notin> keys) (lst l))) \<le> cap l"
    using a(3) by linarith
  moreover have "dom (\<lambda>k. if k \<in> keys then None else data c k)
                 \<subseteq> set (filter (\<lambda>k. k \<notin> keys) (lst l))"
    using a(4) by (auto split: if_splits)
  ultimately show ?thesis
    using Some a by (simp add: deleteExpiredKeys_def lru_covers_def)
qed

lemma clearExpired_covers: "lru_covers c \<Longrightarrow> lru_covers (clearExpired c currentEk i)"
proof -
  assume a: "lru_covers c"
  show ?thesis
  proof (cases "expireSets c (currentEk - i * 1000)")
    case None
    then show ?thesis using a by (simp add: clearExpired_def Let_def)
  next
    case (Some expireSet)
    have "lru_covers ((deleteExpiredKeys c expireSet)
            \<lparr>expireSets := (expireSets c)(currentEk - i * 1000 := None)\<rparr>)"
      by (rule lru_covers_shrunk [OF deleteExpiredKeys_covers [OF a, of expireSet]]) simp_all
    then show ?thesis using Some by (simp add: clearExpired_def Let_def)
  qed
qed

lemma sweep_covers:
  assumes "lru_covers c"
  shows "lru_covers (fst (syncEventAndClearExpired c now))"
proof (cases "closed c")
  case True
  then show ?thesis using assms by (simp add: syncEventAndClearExpired_def)
next
  case False
  have d: "lru_covers (drainEvents c)"
    by (rule lru_covers_shrunk [OF assms]) (simp_all add: drainEvents_fields)
  have "lru_covers (foldl (\<lambda>c' i. clearExpired c' (makeExpireKey now) i) (drainEvents c)
          [1, 2, 3, 4, 5])"
    using d by (simp add: clearExpired_covers)
  then show ?thesis using False by (simp add: syncEventAndClearExpired_def Let_def)
qed

lemma reachable_lru_covers: "reachable c \<Longrightarrow> lru_covers c"
proof (induction rule: reachable.induct)
  case new
  show ?case
    by (simp add: lru_covers_def NewAdapterMemory_def doNewAdapterMemory_def)
next
  case (new_lru C)
  then show ?case
    by (simp add: lru_covers_def NewAdapterMemoryLru_def doNewAdapterMemory_def
        newMemoryLru_def newMemoryData_def)
next
  case (contains c now key)
  then show ?case by (simp add: Contains_state Get_covers)
qed (simp_all add: Set_covers SetIfNotExist_covers Get_covers GetExpire_covers
      Update_covers Close_covers sweep_covers)

lemma reachable_lru_tracks:
  assumes "reachable c" and "data c k = Some item"
  shows "lru_tracks c k"
  using reachable_lru_covers [OF assms(1)] assms(2)
  by (auto simp: lru_covers_def lru_tracks_def split: option.splits)

lemma reachable_lru_wf: "reachable c \<Longrightarrow> lru_wf c"
  using reachable_lru_covers [of c]
  by (auto simp: lru_covers_def lru_wf_def split: option.splits)

end
